theory Spec2Isabelle
  imports Main
begin

unbundle bit_operations_syntax

section \<open>The Chip-8 core of \<open>src/main.py\<close>\<close>

text \<open>
  Python integers are unbounded, so every number of the machine is an \<open>int\<close>; the
  masks (\<open>& 0xFF\<close>, \<open>& 0xFFF\<close>) are the ones the source writes. The lists of the
  class \<open>Chip8\<close> are HOL lists. An exception is a value of the type \<open>error\<close>.
\<close>

subsection \<open>Errors\<close>

text \<open>
  The source raises Python's \<open>IndexError\<close> in three places, kept apart here by where
  they come from: an index into \<open>self.memory\<close> out of range, an index into
  \<open>self.keys\<close> out of range, and \<open>self.stack.pop()\<close> on an empty list. The last
  constructor is the \<open>raise Exception(f"Unknown opcode ...")\<close> of \<open>cycle\<close>.
\<close>

datatype error =
    MemoryIndexError
  | KeysIndexError
  | StackPopError
  | UnknownOpcode int

subsection \<open>Python list indexing\<close>

text \<open>
  \<open>xs[i]\<close> and \<open>xs[i] = v\<close> in Python: an index from \<open>-len(xs)\<close> to \<open>-1\<close> counts
  from the end, any index outside \<open>-len(xs) .. len(xs) - 1\<close> raises.
\<close>

definition py_index :: "int \<Rightarrow> int \<Rightarrow> nat option" where
  "py_index n i =
     (if 0 \<le> i \<and> i < n then Some (nat i)
      else if - n \<le> i \<and> i < 0 then Some (nat (n + i))
      else None)"

definition mem_read :: "int list \<Rightarrow> int \<Rightarrow> error + int" where
  "mem_read mem addr =
     (case py_index (int (length mem)) addr of
        None \<Rightarrow> Inl MemoryIndexError
      | Some j \<Rightarrow> Inr (mem ! j))"

definition mem_write :: "int list \<Rightarrow> int \<Rightarrow> int \<Rightarrow> error + int list" where
  "mem_write mem addr v =
     (case py_index (int (length mem)) addr of
        None \<Rightarrow> Inl MemoryIndexError
      | Some j \<Rightarrow> Inr (mem[j := v]))"

definition key_read :: "int list \<Rightarrow> int \<Rightarrow> error + int" where
  "key_read ks i =
     (case py_index (int (length ks)) i of
        None \<Rightarrow> Inl KeysIndexError
      | Some j \<Rightarrow> Inr (ks ! j))"

subsection \<open>The machine state\<close>

definition MEMORY_SIZE :: nat where
  "MEMORY_SIZE = 4096"

record chip8 =
  memory :: "int list"
  V :: "int list"
  I :: int
  pc :: int
  stack :: "int list"
  delay_timer :: int
  sound_timer :: int
  display :: "int list list"
  keys :: "int list"

definition fontset :: "int list" where
  "fontset =
     [0xF0,0x90,0x90,0x90,0xF0,
      0x20,0x60,0x20,0x20,0x70,
      0xF0,0x10,0xF0,0x80,0xF0,
      0xF0,0x10,0xF0,0x10,0xF0,
      0x90,0x90,0xF0,0x10,0x10,
      0xF0,0x80,0xF0,0x10,0xF0,
      0xF0,0x80,0xF0,0x90,0xF0,
      0xF0,0x10,0x20,0x40,0x40,
      0xF0,0x90,0xF0,0x90,0xF0,
      0xF0,0x90,0xF0,0x10,0xF0,
      0xF0,0x90,0xF0,0x90,0x90,
      0xE0,0x90,0xE0,0x90,0xE0,
      0xF0,0x80,0x80,0x80,0xF0,
      0xE0,0x90,0x90,0x90,0xE0,
      0xF0,0x80,0xF0,0x80,0xF0,
      0xF0,0x80,0xF0,0x80,0x80]"

definition blank_display :: "int list list" where
  "blank_display = replicate 32 (replicate 64 0)"

text \<open>\<open>Chip8.__init__\<close>: the fontset overwrites the first 80 cells of the zeroed memory.\<close>

definition init :: chip8 where
  "init =
     \<lparr> memory = fontset @ replicate (MEMORY_SIZE - length fontset) 0,
       V = replicate 16 0,
       I = 0,
       pc = 0x200,
       stack = [],
       delay_timer = 0,
       sound_timer = 0,
       display = blank_display,
       keys = replicate 16 0 \<rparr>"

subsection \<open>Decoding\<close>

definition op_nnn :: "int \<Rightarrow> int" where
  "op_nnn opcode = opcode AND 0x0FFF"

definition op_n :: "int \<Rightarrow> int" where
  "op_n opcode = opcode AND 0x000F"

definition op_x :: "int \<Rightarrow> int" where
  "op_x opcode = drop_bit 8 (opcode AND 0x0F00)"

definition op_y :: "int \<Rightarrow> int" where
  "op_y opcode = drop_bit 4 (opcode AND 0x00F0)"

definition op_kk :: "int \<Rightarrow> int" where
  "op_kk opcode = opcode AND 0x00FF"

subsection \<open>The loops of \<open>cycle\<close>\<close>

text \<open>
  Each \<open>for ... in range(...)\<close> is a recursion over the list of the indices the range
  yields. A loop that indexes \<open>self.memory\<close> stops at the first \<open>IndexError\<close>.
\<close>

text \<open>The inner loop of DRW, over the columns of one sprite row; the pair is
  \<open>(self.display, self.V[0xF])\<close>.\<close>

fun draw_cols :: "int \<Rightarrow> int \<Rightarrow> int \<Rightarrow> int \<Rightarrow> nat list \<Rightarrow> int list list \<times> int \<Rightarrow> int list list \<times> int" where
  "draw_cols sprite vx vy row [] dv = dv"
| "draw_cols sprite vx vy row (col # cols) (disp, vf) =
     (if sprite AND drop_bit col 0x80 \<noteq> 0 then
        (let px = nat ((vx + int col) mod 64);
             py = nat ((vy + row) mod 32);
             vf' = (if disp ! py ! px = 1 then 1 else vf)
         in draw_cols sprite vx vy row cols (disp[py := (disp ! py)[px := (disp ! py ! px) XOR 1]], vf'))
      else draw_cols sprite vx vy row cols (disp, vf))"

text \<open>The outer loop of DRW, over the sprite rows.\<close>

fun draw_rows :: "int list \<Rightarrow> int \<Rightarrow> int \<Rightarrow> int \<Rightarrow> nat list \<Rightarrow> int list list \<times> int \<Rightarrow> error + int list list \<times> int" where
  "draw_rows mem i vx vy [] dv = Inr dv"
| "draw_rows mem i vx vy (row # rows) dv =
     (case mem_read mem (i + int row) of
        Inl e \<Rightarrow> Inl e
      | Inr sprite \<Rightarrow> draw_rows mem i vx vy rows (draw_cols sprite vx vy (int row) [0..<8] dv))"

text \<open>The key scan of Fx0A: the first index whose key is truthy, or \<open>None\<close>.\<close>

fun scan_keys :: "int list \<Rightarrow> nat list \<Rightarrow> nat option" where
  "scan_keys ks [] = None"
| "scan_keys ks (i # is) = (if ks ! i \<noteq> 0 then Some i else scan_keys ks is)"

text \<open>Fx55: \<open>self.memory[self.I + i] = self.V[i]\<close> for \<open>i\<close> in \<open>range(x + 1)\<close>.\<close>

fun store_regs :: "int list \<Rightarrow> int \<Rightarrow> nat list \<Rightarrow> int list \<Rightarrow> error + int list" where
  "store_regs v i [] mem = Inr mem"
| "store_regs v i (k # ks) mem =
     (case mem_write mem (i + int k) (v ! k) of
        Inl e \<Rightarrow> Inl e
      | Inr mem' \<Rightarrow> store_regs v i ks mem')"

text \<open>Fx65: \<open>self.V[i] = self.memory[self.I + i]\<close> for \<open>i\<close> in \<open>range(x + 1)\<close>.\<close>

fun load_regs :: "int list \<Rightarrow> int \<Rightarrow> nat list \<Rightarrow> int list \<Rightarrow> error + int list" where
  "load_regs mem i [] v = Inr v"
| "load_regs mem i (k # ks) v =
     (case mem_read mem (i + int k) of
        Inl e \<Rightarrow> Inl e
      | Inr b \<Rightarrow> load_regs mem i ks (v[k := b]))"

subsection \<open>Execute\<close>

text \<open>
  The part of \<open>cycle\<close> under \<open># Decode\<close> and \<open># Execute\<close>, on the state whose
  \<open>pc\<close> the fetch has already advanced. \<open>rnd\<close> is the value that
  \<open>random.randint(0, 255)\<close> returns when the opcode is Cxkk. The group 8xxx, the group
  Exxx and the group Fxxx are the inner \<open>if/elif\<close> chains; none of them has an
  \<open>else\<close>, so an opcode of the group that no test matches leaves the state as it is.
\<close>

definition exec_8 :: "int \<Rightarrow> chip8 \<Rightarrow> chip8" where
  "exec_8 opcode s =
     (let n = op_n opcode; x = nat (op_x opcode); y = nat (op_y opcode) in
      if n = 0x0 then s\<lparr>V := (V s)[x := V s ! y]\<rparr>
      else if n = 0x1 then s\<lparr>V := (V s)[x := (V s ! x) OR (V s ! y)]\<rparr>
      else if n = 0x2 then s\<lparr>V := (V s)[x := (V s ! x) AND (V s ! y)]\<rparr>
      else if n = 0x3 then s\<lparr>V := (V s)[x := (V s ! x) XOR (V s ! y)]\<rparr>
      else if n = 0x4 then
        (let result = V s ! x + V s ! y;
             v1 = (V s)[0xF := (if result > 0xFF then 1 else 0)]
         in s\<lparr>V := v1[x := result AND 0xFF]\<rparr>)
      else if n = 0x5 then
        (let v1 = (V s)[0xF := (if V s ! x > V s ! y then 1 else 0)]
         in s\<lparr>V := v1[x := (v1 ! x - v1 ! y) AND 0xFF]\<rparr>)
      else if n = 0x6 then
        (let v1 = (V s)[0xF := (V s ! x) AND 0x1]
         in s\<lparr>V := v1[x := drop_bit 1 (v1 ! x)]\<rparr>)
      else if n = 0x7 then
        (let v1 = (V s)[0xF := (if V s ! y > V s ! x then 1 else 0)]
         in s\<lparr>V := v1[x := (v1 ! y - v1 ! x) AND 0xFF]\<rparr>)
      else if n = 0xE then
        (let v1 = (V s)[0xF := drop_bit 7 ((V s ! x) AND 0x80)]
         in s\<lparr>V := v1[x := push_bit 1 (v1 ! x) AND 0xFF]\<rparr>)
      else s)"

definition exec_D :: "int \<Rightarrow> chip8 \<Rightarrow> error + chip8" where
  "exec_D opcode s =
     (let n = op_n opcode; x = nat (op_x opcode); y = nat (op_y opcode);
          vx = V s ! x; vy = V s ! y;
          v1 = (V s)[0xF := 0]
      in case draw_rows (memory s) (I s) vx vy [0..<nat n] (display s, 0) of
           Inl e \<Rightarrow> Inl e
         | Inr (disp, vf) \<Rightarrow> Inr (s\<lparr>V := v1[0xF := vf], display := disp\<rparr>))"

definition exec_E :: "int \<Rightarrow> chip8 \<Rightarrow> error + chip8" where
  "exec_E opcode s =
     (let kk = op_kk opcode; x = nat (op_x opcode) in
      if kk = 0x9E then
        (case key_read (keys s) (V s ! x) of
           Inl e \<Rightarrow> Inl e
         | Inr k \<Rightarrow> Inr (if k = 1 then s\<lparr>pc := pc s + 2\<rparr> else s))
      else if kk = 0xA1 then
        (case key_read (keys s) (V s ! x) of
           Inl e \<Rightarrow> Inl e
         | Inr k \<Rightarrow> Inr (if k = 0 then s\<lparr>pc := pc s + 2\<rparr> else s))
      else Inr s)"

definition exec_F :: "int \<Rightarrow> chip8 \<Rightarrow> error + chip8" where
  "exec_F opcode s =
     (let kk = op_kk opcode; x = nat (op_x opcode) in
      if kk = 0x07 then Inr (s\<lparr>V := (V s)[x := delay_timer s]\<rparr>)
      else if kk = 0x0A then
        (case scan_keys (keys s) [0..<16] of
           None \<Rightarrow> Inr (s\<lparr>pc := pc s - 2\<rparr>)
         | Some pressed \<Rightarrow> Inr (s\<lparr>V := (V s)[x := int pressed]\<rparr>))
      else if kk = 0x15 then Inr (s\<lparr>delay_timer := V s ! x\<rparr>)
      else if kk = 0x18 then Inr (s\<lparr>sound_timer := V s ! x\<rparr>)
      else if kk = 0x1E then Inr (s\<lparr>I := (I s + V s ! x) AND 0xFFF\<rparr>)
      else if kk = 0x29 then Inr (s\<lparr>I := V s ! x * 5\<rparr>)
      else if kk = 0x33 then
        (let v = V s ! x in
         case mem_write (memory s) (I s) (v div 100) of
           Inl e \<Rightarrow> Inl e
         | Inr m1 \<Rightarrow>
        (case mem_write m1 (I s + 1) ((v div 10) mod 10) of
           Inl e \<Rightarrow> Inl e
         | Inr m2 \<Rightarrow>
        (case mem_write m2 (I s + 2) (v mod 10) of
           Inl e \<Rightarrow> Inl e
         | Inr m3 \<Rightarrow> Inr (s\<lparr>memory := m3\<rparr>))))
      else if kk = 0x55 then
        (case store_regs (V s) (I s) [0..<x + 1] (memory s) of
           Inl e \<Rightarrow> Inl e
         | Inr m \<Rightarrow> Inr (s\<lparr>memory := m\<rparr>))
      else if kk = 0x65 then
        (case load_regs (memory s) (I s) [0..<x + 1] (V s) of
           Inl e \<Rightarrow> Inl e
         | Inr v \<Rightarrow> Inr (s\<lparr>V := v\<rparr>))
      else Inr s)"

definition execute :: "int \<Rightarrow> int \<Rightarrow> chip8 \<Rightarrow> error + chip8" where
  "execute rnd opcode s =
     (let nnn = op_nnn opcode; n = op_n opcode; x = nat (op_x opcode);
          y = nat (op_y opcode); kk = op_kk opcode; hi = opcode AND 0xF000 in
      if opcode = 0x00E0 then Inr (s\<lparr>display := blank_display\<rparr>)
      else if opcode = 0x00EE then
        (if stack s = [] then Inl StackPopError
         else Inr (s\<lparr>pc := last (stack s), stack := butlast (stack s)\<rparr>))
      else if hi = 0x0000 then Inr s
      else if hi = 0x1000 then Inr (s\<lparr>pc := nnn\<rparr>)
      else if hi = 0x2000 then Inr (s\<lparr>stack := stack s @ [pc s], pc := nnn\<rparr>)
      else if hi = 0x3000 then Inr (if V s ! x = kk then s\<lparr>pc := pc s + 2\<rparr> else s)
      else if hi = 0x4000 then Inr (if V s ! x \<noteq> kk then s\<lparr>pc := pc s + 2\<rparr> else s)
      else if hi = 0x5000 then
        Inr (if n = 0 \<and> V s ! x = V s ! y then s\<lparr>pc := pc s + 2\<rparr> else s)
      else if hi = 0x6000 then Inr (s\<lparr>V := (V s)[x := kk]\<rparr>)
      else if hi = 0x7000 then Inr (s\<lparr>V := (V s)[x := (V s ! x + kk) AND 0xFF]\<rparr>)
      else if hi = 0x8000 then Inr (exec_8 opcode s)
      else if hi = 0x9000 then
        Inr (if n = 0 \<and> V s ! x \<noteq> V s ! y then s\<lparr>pc := pc s + 2\<rparr> else s)
      else if hi = 0xA000 then Inr (s\<lparr>I := nnn\<rparr>)
      else if hi = 0xB000 then Inr (s\<lparr>pc := nnn + V s ! 0\<rparr>)
      else if hi = 0xC000 then Inr (s\<lparr>V := (V s)[x := rnd AND kk]\<rparr>)
      else if hi = 0xD000 then exec_D opcode s
      else if hi = 0xE000 then exec_E opcode s
      else if hi = 0xF000 then exec_F opcode s
      else Inl (UnknownOpcode opcode))"

subsection \<open>Fetch and the whole cycle\<close>

definition fetch :: "chip8 \<Rightarrow> error + int" where
  "fetch s =
     (case mem_read (memory s) (pc s) of
        Inl e \<Rightarrow> Inl e
      | Inr b0 \<Rightarrow>
     (case mem_read (memory s) (pc s + 1) of
        Inl e \<Rightarrow> Inl e
      | Inr b1 \<Rightarrow> Inr (push_bit 8 b0 OR b1)))"

definition cycle :: "int \<Rightarrow> chip8 \<Rightarrow> error + chip8" where
  "cycle rnd s =
     (case fetch s of
        Inl e \<Rightarrow> Inl e
      | Inr opcode \<Rightarrow> execute rnd opcode (s\<lparr>pc := pc s + 2\<rparr>))"


text \<open>
  \<open>App.update_loop\<close> calls \<open>cycle\<close> again and again; here one call for each element
  of the list of the random bytes, stopping at the first exception.
\<close>

fun run :: "int list \<Rightarrow> chip8 \<Rightarrow> error + chip8" where
  "run [] s = Inr s"
| "run (rnd # rnds) s =
     (case cycle rnd s of
        Inl e \<Rightarrow> Inl e
      | Inr s' \<Rightarrow> run rnds s')"

subsection \<open>Loading a ROM\<close>

text \<open>
  \<open>Chip8.load_rom\<close>, on the bytes that \<open>f.read()\<close> returned:
  \<open>for i, byte in enumerate(rom): self.memory[0x200 + i] = byte\<close>. The result is the
  exception the loop raised, if any, and the memory as the call leaves it: the cells
  written before an exception stay written.
\<close>

fun load_bytes :: "nat \<Rightarrow> int list \<Rightarrow> int list \<Rightarrow> error option \<times> int list" where
  "load_bytes i [] mem = (None, mem)"
| "load_bytes i (byte # bytes) mem =
     (case mem_write mem (0x200 + int i) byte of
        Inl e \<Rightarrow> (Some e, mem)
      | Inr mem' \<Rightarrow> load_bytes (Suc i) bytes mem')"

definition load_rom :: "int list \<Rightarrow> chip8 \<Rightarrow> error option \<times> chip8" where
  "load_rom rom s =
     (case load_bytes 0 rom (memory s) of
        (e, mem) \<Rightarrow> (e, s\<lparr>memory := mem\<rparr>))"

text \<open>
  \<open>App.load_rom\<close>, once a file has been chosen: the size check, then a fresh machine
  and \<open>Chip8.load_rom\<close>. The first component says what the call reported: the message
  box of the size check, an exception of \<open>Chip8.load_rom\<close>, or nothing; the second is
  \<open>self.chip8\<close> afterwards.
\<close>

datatype load_report = RomTooLarge | Raised error | Loaded

definition app_load_rom :: "int list \<Rightarrow> chip8 option \<Rightarrow> load_report \<times> chip8 option" where
  "app_load_rom rom c =
     (if length rom > MEMORY_SIZE - 0x200 then (RomTooLarge, c)
      else (case load_rom rom init of
              (None, s) \<Rightarrow> (Loaded, Some s)
            | (Some e, s) \<Rightarrow> (Raised e, Some s)))"

subsection \<open>The disassembler\<close>

text \<open>
  The format specifications of the f-strings: \<open>X\<close> is upper-case hexadecimal,
  \<open>0wX\<close> pads with zeros to the width \<open>w\<close>, the sign of a negative number counted in
  the width and put before the zeros.
\<close>

definition hex_digit :: "nat \<Rightarrow> char" where
  "hex_digit d = ''0123456789ABCDEF'' ! d"

fun hex_upper :: "nat \<Rightarrow> string" where
  "hex_upper n = (if n < 16 then [hex_digit n] else hex_upper (n div 16) @ [hex_digit (n mod 16)])"

declare hex_upper.simps [simp del]

definition zero_pad :: "nat \<Rightarrow> string \<Rightarrow> string" where
  "zero_pad w str = replicate (w - length str) CHR ''0'' @ str"

definition fmt_X :: "nat \<Rightarrow> int \<Rightarrow> string" where
  "fmt_X w v =
     (if v < 0 then CHR ''-'' # zero_pad (w - 1) (hex_upper (nat (- v)))
      else zero_pad w (hex_upper (nat v)))"

definition disassemble :: "int \<Rightarrow> string" where
  "disassemble opcode =
     (let nnn = op_nnn opcode; n = op_n opcode; x = op_x opcode;
          y = op_y opcode; kk = op_kk opcode; hi = opcode AND 0xF000;
          unknown = ''UNKNOWN '' @ fmt_X 4 opcode in
      if opcode = 0x00E0 then ''CLS''
      else if opcode = 0x00EE then ''RET''
      else if hi = 0x1000 then ''JP '' @ fmt_X 3 nnn
      else if hi = 0x2000 then ''CALL '' @ fmt_X 3 nnn
      else if hi = 0x3000 then ''SE V'' @ fmt_X 0 x @ '', '' @ fmt_X 2 kk
      else if hi = 0x4000 then ''SNE V'' @ fmt_X 0 x @ '', '' @ fmt_X 2 kk
      else if hi = 0x5000 \<and> n = 0 then ''SE V'' @ fmt_X 0 x @ '', V'' @ fmt_X 0 y
      else if hi = 0x6000 then ''LD V'' @ fmt_X 0 x @ '', '' @ fmt_X 2 kk
      else if hi = 0x7000 then ''ADD V'' @ fmt_X 0 x @ '', '' @ fmt_X 2 kk
      else if hi = 0x8000 then
        (if n = 0x0 then ''LD V'' @ fmt_X 0 x @ '', V'' @ fmt_X 0 y
         else if n = 0x1 then ''OR V'' @ fmt_X 0 x @ '', V'' @ fmt_X 0 y
         else if n = 0x2 then ''AND V'' @ fmt_X 0 x @ '', V'' @ fmt_X 0 y
         else if n = 0x3 then ''XOR V'' @ fmt_X 0 x @ '', V'' @ fmt_X 0 y
         else if n = 0x4 then ''ADD V'' @ fmt_X 0 x @ '', V'' @ fmt_X 0 y
         else if n = 0x5 then ''SUB V'' @ fmt_X 0 x @ '', V'' @ fmt_X 0 y
         else if n = 0x6 then ''SHR V'' @ fmt_X 0 x
         else if n = 0x7 then ''SUBN V'' @ fmt_X 0 x @ '', V'' @ fmt_X 0 y
         else if n = 0xE then ''SHL V'' @ fmt_X 0 x
         else unknown)
      else if hi = 0x9000 \<and> n = 0 then ''SNE V'' @ fmt_X 0 x @ '', V'' @ fmt_X 0 y
      else if hi = 0xA000 then ''LD I, '' @ fmt_X 3 nnn
      else if hi = 0xB000 then ''JP V0, '' @ fmt_X 3 nnn
      else if hi = 0xC000 then ''RND V'' @ fmt_X 0 x @ '', '' @ fmt_X 2 kk
      else if hi = 0xD000 then
        ''DRW V'' @ fmt_X 0 x @ '', V'' @ fmt_X 0 y @ '', '' @ fmt_X 0 n
      else if hi = 0xE000 then
        (if kk = 0x9E then ''SKP V'' @ fmt_X 0 x
         else if kk = 0xA1 then ''SKNP V'' @ fmt_X 0 x
         else unknown)
      else if hi = 0xF000 then
        (if kk = 0x07 then ''LD V'' @ fmt_X 0 x @ '', DT''
         else if kk = 0x0A then ''LD V'' @ fmt_X 0 x @ '', K''
         else if kk = 0x15 then ''LD DT, V'' @ fmt_X 0 x
         else if kk = 0x18 then ''LD ST, V'' @ fmt_X 0 x
         else if kk = 0x1E then ''ADD I, V'' @ fmt_X 0 x
         else if kk = 0x29 then ''LD F, V'' @ fmt_X 0 x
         else if kk = 0x33 then ''LD B, V'' @ fmt_X 0 x
         else if kk = 0x55 then ''LD [I], V0-V'' @ fmt_X 0 x
         else if kk = 0x65 then ''LD V0-V'' @ fmt_X 0 x @ '', [I]''
         else unknown)
      else unknown)"

subsection \<open>Well-formed states\<close>

text \<open>
  What \<open>__init__\<close> establishes and \<open>load_rom\<close> and \<open>cycle\<close> keep: the shapes of
  the lists, bytes in the memory, the registers and the timers, bits in the display and
  the keys, and no negative address.
\<close>

definition is_byte :: "int \<Rightarrow> bool" where
  "is_byte b = (0 \<le> b \<and> b \<le> 255)"

definition is_bit :: "int \<Rightarrow> bool" where
  "is_bit b = (b = 0 \<or> b = 1)"

definition wf_state :: "chip8 \<Rightarrow> bool" where
  "wf_state s =
     (length (memory s) = MEMORY_SIZE \<and> list_all is_byte (memory s) \<and>
      length (V s) = 16 \<and> list_all is_byte (V s) \<and>
      0 \<le> I s \<and> 0 \<le> pc s \<and> list_all (\<lambda>a. 0 \<le> a) (stack s) \<and>
      is_byte (delay_timer s) \<and> is_byte (sound_timer s) \<and>
      length (display s) = 32 \<and>
      list_all (\<lambda>r. length r = 64 \<and> list_all is_bit r) (display s) \<and>
      length (keys s) = 16 \<and> list_all is_bit (keys s))"

text \<open>An address of the 4 KB memory, \<open>[0, 4095]\<close>.\<close>

definition in_memory :: "int \<Rightarrow> bool" where
  "in_memory a = (0 \<le> a \<and> a \<le> 4095)"

text \<open>The machine that \<open>App.load_rom\<close> builds: \<open>Chip8()\<close>, then \<open>load_rom\<close>.\<close>

definition boot :: "int list \<Rightarrow> chip8" where
  "boot rom = snd (load_rom rom init)"

subsection \<open>What the specification says, for comparison with the code\<close>

text \<open>
  The carry or borrow flag and the 8-bit result of 8xy4, 8xy5 and 8xy7, from the
  operands \<open>V[x]\<close> and \<open>V[y]\<close> as they are before the instruction:
  8xy4 has the flag 1 iff \<open>V[x] + V[y] > 255\<close>, 8xy5 iff \<open>V[x] > V[y]\<close>, 8xy7 iff
  \<open>V[y] > V[x]\<close>; the result is the sum or the difference truncated to 8 bits.
\<close>

definition spec_flag :: "int \<Rightarrow> int \<Rightarrow> int \<Rightarrow> int" where
  "spec_flag n vx vy =
     (if n = 4 then (if vx + vy > 255 then 1 else 0)
      else if n = 5 then (if vx > vy then 1 else 0)
      else (if vy > vx then 1 else 0))"

definition spec_result :: "int \<Rightarrow> int \<Rightarrow> int \<Rightarrow> int" where
  "spec_result n vx vy =
     (if n = 4 then (vx + vy) mod 256
      else if n = 5 then (vx - vy) mod 256
      else (vy - vx) mod 256)"

text \<open>
  The sprite of DRW: the bit of row \<open>row\<close> and column \<open>col\<close>, most significant bit
  first, of the bytes at \<open>memory[I + row]\<close>; and the pixels an \<open>n\<close>-row sprite
  put at \<open>(vx, vy)\<close> covers, both coordinates wrapped.
\<close>

definition sprite_bit :: "int list \<Rightarrow> int \<Rightarrow> nat \<Rightarrow> nat \<Rightarrow> bool" where
  "sprite_bit mem i row col = bit (mem ! nat (i + int row)) (7 - col)"

definition sprite_covers :: "int list \<Rightarrow> int \<Rightarrow> nat \<Rightarrow> int \<Rightarrow> int \<Rightarrow> nat \<Rightarrow> nat \<Rightarrow> bool" where
  "sprite_covers mem i n vx vy py px =
     list_ex (\<lambda>row. list_ex (\<lambda>col.
         sprite_bit mem i row col \<and>
         py = nat ((vy + int row) mod 32) \<and> px = nat ((vx + int col) mod 64)) [0..<8]) [0..<n]"

text \<open>
  The case table of the disassembler, by the hexadecimal digits of a 16-bit opcode:
  00E0, 00EE, 1nnn, 2nnn, 3xkk, 4xkk, 5xy0, 6xkk, 7xkk, 8xy0 to 8xy7, 8xyE, 9xy0, Annn,
  Bnnn, Cxkk, Dxyn, Ex9E, ExA1, Fx07, Fx0A, Fx15, Fx18, Fx1E, Fx29, Fx33, Fx55, Fx65.
\<close>

definition in_case_table :: "int \<Rightarrow> bool" where
  "in_case_table opcode =
     (let g = opcode div 0x1000; n = opcode mod 0x10; kk = opcode mod 0x100 in
      opcode = 0x00E0 \<or> opcode = 0x00EE \<or>
      g \<in> {1, 2, 3, 4, 6, 7, 0xA, 0xB, 0xC, 0xD} \<or>
      (g = 5 \<and> n = 0) \<or>
      (g = 8 \<and> n \<in> {0, 1, 2, 3, 4, 5, 6, 7, 0xE}) \<or>
      (g = 9 \<and> n = 0) \<or>
      (g = 0xE \<and> kk \<in> {0x9E, 0xA1}) \<or>
      (g = 0xF \<and> kk \<in> {0x07, 0x0A, 0x15, 0x18, 0x1E, 0x29, 0x33, 0x55, 0x65}))"

text \<open>The four upper-case hexadecimal digits of a 16-bit number.\<close>

definition hex4 :: "int \<Rightarrow> string" where
  "hex4 v =
     [hex_digit (nat (v div 0x1000)), hex_digit (nat (v div 0x100 mod 0x10)),
      hex_digit (nat (v div 0x10 mod 0x10)), hex_digit (nat (v mod 0x10))]"

section \<open>Properties\<close>

subsection \<open>Masks and nibbles\<close>

lemma and_ff: "(k::int) AND 0xFF = k mod 256"
  using take_bit_eq_mask[of 8 k] by (simp add: take_bit_eq_mod mask_eq_exp_minus_1)

lemma and_f: "(k::int) AND 0xF = k mod 16"
  using take_bit_eq_mask[of 4 k] by (simp add: take_bit_eq_mod mask_eq_exp_minus_1)

lemma and_fff: "(k::int) AND 0xFFF = k mod 4096"
  using take_bit_eq_mask[of 12 k] by (simp add: take_bit_eq_mod mask_eq_exp_minus_1)

lemma op_x_nibble: "op_x opcode = (opcode div 256) mod 16"
proof -
  have "drop_bit 8 (opcode AND 0x0F00) = drop_bit 8 opcode AND drop_bit 8 0x0F00"
    by (rule drop_bit_and)
  also have "drop_bit 8 (0x0F00::int) = 0xF"
    by (simp add: drop_bit_eq_div)
  finally show ?thesis
    by (simp add: op_x_def and_f drop_bit_eq_div)
qed

lemma op_y_nibble: "op_y opcode = (opcode div 16) mod 16"
proof -
  have "drop_bit 4 (opcode AND 0x00F0) = drop_bit 4 opcode AND drop_bit 4 0x00F0"
    by (rule drop_bit_and)
  also have "drop_bit 4 (0x00F0::int) = 0xF"
    by (simp add: drop_bit_eq_div)
  finally show ?thesis
    by (simp add: op_y_def and_f drop_bit_eq_div)
qed

lemma hi_nibble: "(k::int) AND 0xF000 = 4096 * ((k div 4096) mod 16)"
proof -
  let ?a = "k AND 0xF000"
  have "push_bit 12 (drop_bit 12 ?a) + take_bit 12 ?a = ?a"
    by (rule bits_ident)
  moreover have "take_bit 12 ?a = 0"
    by (simp add: take_bit_and)
  moreover have "drop_bit 12 ?a = (k div 4096) mod 16"
  proof -
    have "drop_bit 12 ?a = drop_bit 12 k AND drop_bit 12 0xF000"
      by (rule drop_bit_and)
    also have "drop_bit 12 (0xF000::int) = 0xF"
      by (simp add: drop_bit_eq_div)
    finally show ?thesis
      by (simp add: and_f drop_bit_eq_div)
  qed
  ultimately show ?thesis
    by (simp add: push_bit_eq_mult)
qed

lemma nibble_cases:
  "0 \<le> (x::int) \<Longrightarrow> x < 16 \<Longrightarrow> x \<in> {0, 1, 2, 3, 4, 5, 6, 7, 8, 9, 10, 11, 12, 13, 14, 15}"
  by simp arith

lemma hi_cases:
  "(k::int) AND 0xF000 \<in> {0, 0x1000, 0x2000, 0x3000, 0x4000, 0x5000, 0x6000, 0x7000,
     0x8000, 0x9000, 0xA000, 0xB000, 0xC000, 0xD000, 0xE000, 0xF000}"
proof -
  have "(k div 4096) mod 16 \<in> {0, 1, 2, 3, 4, 5, 6, 7, 8, 9, 10, 11, 12, 13, 14, 15}"
    by (rule nibble_cases) simp_all
  then show ?thesis
    unfolding hi_nibble by auto
qed

lemma hi_not_small: "opcode AND 0xF000 \<noteq> 0 \<Longrightarrow> opcode \<noteq> 0xE0 \<and> opcode \<noteq> (0xEE::int)"
  by auto

lemma op_x_less: "nat (op_x opcode) < 16"
  by (simp add: op_x_nibble nat_less_iff)

lemma op_y_less: "nat (op_y opcode) < 16"
  by (simp add: op_y_nibble nat_less_iff)

subsection \<open>Which exceptions can come out\<close>

lemma mem_read_error: "mem_read mem a = Inl e \<Longrightarrow> e = MemoryIndexError"
  by (simp add: mem_read_def split: option.splits)

lemma mem_write_error: "mem_write mem a v = Inl e \<Longrightarrow> e = MemoryIndexError"
  by (simp add: mem_write_def split: option.splits)

lemma key_read_error: "key_read ks a = Inl e \<Longrightarrow> e = KeysIndexError"
  by (simp add: key_read_def split: option.splits)

lemma draw_rows_error: "draw_rows mem i vx vy rows dv = Inl e \<Longrightarrow> e = MemoryIndexError"
  by (induction rows arbitrary: dv) (auto split: sum.splits dest: mem_read_error)

lemma store_regs_error: "store_regs v i ks mem = Inl e \<Longrightarrow> e = MemoryIndexError"
  by (induction ks arbitrary: mem) (auto split: sum.splits dest: mem_write_error)

lemma load_regs_error: "load_regs mem i ks v = Inl e \<Longrightarrow> e = MemoryIndexError"
  by (induction ks arbitrary: v) (auto split: sum.splits dest: mem_read_error)

lemma exec_D_error: "exec_D opcode s = Inl e \<Longrightarrow> e = MemoryIndexError"
  by (auto simp: exec_D_def Let_def split: sum.splits dest: draw_rows_error)

lemma exec_E_error: "exec_E opcode s = Inl e \<Longrightarrow> e = KeysIndexError"
  by (auto simp: exec_E_def Let_def split: sum.splits if_splits dest: key_read_error)

lemma exec_F_error: "exec_F opcode s = Inl e \<Longrightarrow> e = MemoryIndexError"
  by (auto simp: exec_F_def Let_def split: sum.splits if_splits option.splits
      dest: mem_write_error store_regs_error load_regs_error)

lemma execute_error:
  "execute rnd opcode s = Inl e \<Longrightarrow>
   e = MemoryIndexError \<or> e = KeysIndexError \<or> e = StackPopError"
  using hi_cases[of opcode]
  by (auto simp: execute_def Let_def split: if_splits
      dest: exec_D_error exec_E_error exec_F_error)

lemma fetch_error: "fetch s = Inl e \<Longrightarrow> e = MemoryIndexError"
  by (auto simp: fetch_def split: sum.splits dest: mem_read_error)

lemma cycle_error:
  "cycle rnd s = Inl e \<Longrightarrow> e = MemoryIndexError \<or> e = KeysIndexError \<or> e = StackPopError"
  by (auto simp: cycle_def split: sum.splits dest: fetch_error execute_error)

lemma cycle_fetch:
  "fetch s = Inr opcode \<Longrightarrow> cycle rnd s = execute rnd opcode (s\<lparr>pc := pc s + 2\<rparr>)"
  by (simp add: cycle_def)

subsection \<open>Reading and writing the memory\<close>

lemma mem_write_in_range:
  "0 \<le> a \<Longrightarrow> a < int (length mem) \<Longrightarrow> mem_write mem a v = Inr (mem[nat a := v])"
  by (simp add: mem_write_def py_index_def)

lemma mem_read_in_range:
  "0 \<le> a \<Longrightarrow> a < int (length mem) \<Longrightarrow> mem_read mem a = Inr (mem ! nat a)"
  by (simp add: mem_read_def py_index_def)

lemma mem_write_above:
  "int (length mem) \<le> a \<Longrightarrow> mem_write mem a v = Inl MemoryIndexError"
  by (simp add: mem_write_def py_index_def)

lemma mem_read_above:
  "int (length mem) \<le> a \<Longrightarrow> mem_read mem a = Inl MemoryIndexError"
  by (simp add: mem_read_def py_index_def)

subsection \<open>The loop of \<open>load_rom\<close>\<close>

lemma load_bytes_fits_at:
  "int j = 0x200 + int i \<Longrightarrow> j + length bytes \<le> length mem \<Longrightarrow>
   load_bytes i bytes mem = (None, take j mem @ bytes @ drop (j + length bytes) mem)"
proof (induction bytes arbitrary: i j mem)
  case Nil
  then show ?case by simp
next
  case (Cons b bytes)
  have "mem_write mem (int j) b = Inr (mem[j := b])"
    using mem_write_in_range[of "int j" mem b] Cons.prems(2) by simp
  then have w: "mem_write mem (0x200 + int i) b = Inr (mem[j := b])"
    unfolding Cons.prems(1) .
  have "int (Suc j) = 0x200 + int (Suc i)"
    using Cons.prems(1) by simp
  moreover have "Suc j + length bytes \<le> length (mem[j := b])"
    using Cons.prems(2) by simp
  ultimately have "load_bytes (Suc i) bytes (mem[j := b]) =
        (None, take (Suc j) (mem[j := b]) @ bytes @ drop (Suc j + length bytes) (mem[j := b]))"
    by (rule Cons.IH)
  moreover have "take (Suc j) (mem[j := b]) = take j mem @ [b]"
    using Cons.prems(2) by (simp add: take_Suc_conv_app_nth)
  moreover have "drop (Suc j + length bytes) (mem[j := b]) = drop (j + length (b # bytes)) mem"
    by simp
  ultimately have "load_bytes (Suc i) bytes (mem[j := b]) =
        (None, take j mem @ (b # bytes) @ drop (j + length (b # bytes)) mem)"
    by simp
  then show ?case by (simp add: w)
qed

lemma load_bytes_overflow_at:
  "int j = 0x200 + int i \<Longrightarrow> j \<le> length mem \<Longrightarrow> length mem < j + length bytes \<Longrightarrow>
   load_bytes i bytes mem = (Some MemoryIndexError, take j mem @ take (length mem - j) bytes)"
proof (induction bytes arbitrary: i j mem)
  case Nil
  then show ?case by simp
next
  case (Cons b bytes)
  show ?case
  proof (cases "j = length mem")
    case True
    have "mem_write mem (int j) b = Inl MemoryIndexError"
      using True by (intro mem_write_above) simp
    then have "mem_write mem (0x200 + int i) b = Inl MemoryIndexError"
      unfolding Cons.prems(1) .
    with True show ?thesis by simp
  next
    case False
    with Cons.prems(2) have lt: "j < length mem" by simp
    have "mem_write mem (int j) b = Inr (mem[j := b])"
      using mem_write_in_range[of "int j" mem b] lt by simp
    then have w: "mem_write mem (0x200 + int i) b = Inr (mem[j := b])"
      unfolding Cons.prems(1) .
    have "int (Suc j) = 0x200 + int (Suc i)"
      using Cons.prems(1) by simp
    moreover have "Suc j \<le> length (mem[j := b])"
      using lt by simp
    moreover have "length (mem[j := b]) < Suc j + length bytes"
      using Cons.prems(3) by simp
    ultimately have "load_bytes (Suc i) bytes (mem[j := b]) =
          (Some MemoryIndexError,
           take (Suc j) (mem[j := b]) @ take (length (mem[j := b]) - Suc j) bytes)"
      by (rule Cons.IH)
    moreover have "take (Suc j) (mem[j := b]) = take j mem @ [b]"
      using lt by (simp add: take_Suc_conv_app_nth)
    moreover have "take (length mem - j) (b # bytes) = b # take (length mem - Suc j) bytes"
      using lt by (simp add: take_Cons')
    ultimately have "load_bytes (Suc i) bytes (mem[j := b]) =
          (Some MemoryIndexError, take j mem @ take (length mem - j) (b # bytes))"
      by simp
    then show ?thesis by (simp add: w)
  qed
qed

lemma load_rom_fits:
  assumes "length (memory s) = MEMORY_SIZE" "length rom \<le> 3584"
  shows "load_rom rom s =
    (None, s\<lparr>memory := take 0x200 (memory s) @ rom @ drop (0x200 + length rom) (memory s)\<rparr>)"
proof -
  have "load_bytes 0 rom (memory s) =
    (None, take 0x200 (memory s) @ rom @ drop (0x200 + length rom) (memory s))"
    using assms by (intro load_bytes_fits_at) (simp_all add: MEMORY_SIZE_def)
  then show ?thesis by (simp add: load_rom_def)
qed

lemma load_rom_overflow:
  assumes "length (memory s) = MEMORY_SIZE" "length rom > 3584"
  shows "load_rom rom s =
    (Some MemoryIndexError, s\<lparr>memory := take 0x200 (memory s) @ take 3584 rom\<rparr>)"
proof -
  have "load_bytes 0 rom (memory s) =
    (Some MemoryIndexError, take 0x200 (memory s) @ take (length (memory s) - 0x200) rom)"
    using assms by (intro load_bytes_overflow_at) (simp_all add: MEMORY_SIZE_def)
  then show ?thesis using assms(1) by (simp add: load_rom_def MEMORY_SIZE_def)
qed

subsection \<open>The initial machine and a loaded machine\<close>

lemma length_memory_init: "length (memory init) = 4096"
  by (simp add: init_def fontset_def MEMORY_SIZE_def)

lemma boot_memory:
  "length rom \<le> 3584 \<Longrightarrow>
   memory (boot rom) = take 0x200 (memory init) @ rom @ drop (0x200 + length rom) (memory init)"
  by (simp add: boot_def load_rom_fits length_memory_init MEMORY_SIZE_def)

lemma boot_fields:
  "pc (boot rom) = 0x200" "I (boot rom) = 0" "V (boot rom) = replicate 16 0"
  "stack (boot rom) = []" "keys (boot rom) = replicate 16 0"
  "display (boot rom) = blank_display" "delay_timer (boot rom) = 0" "sound_timer (boot rom) = 0"
  by (simp_all add: boot_def load_rom_def init_def split: prod.splits)

lemma length_memory_boot: "length rom \<le> 3584 \<Longrightarrow> length (memory (boot rom)) = 4096"
  by (simp add: boot_memory length_memory_init)

lemma fetch_boot:
  assumes "memory s = memory (boot (b0 # b1 # rest))" "length rest \<le> 3582" "pc s = 0x200"
  shows "fetch s = Inr (push_bit 8 b0 OR b1)"
proof -
  have m: "memory s = take 0x200 (memory init) @ b0 # b1 # rest @ drop (0x202 + length rest) (memory init)"
    using assms(1,2) by (simp add: boot_memory)
  have l: "length (take 0x200 (memory init)) = 0x200"
    by (simp add: length_memory_init)
  have "memory s ! 0x200 = b0" "memory s ! 0x201 = b1"
    using l by (simp_all add: m nth_append)
  moreover have "int (length (memory s)) > 0x201"
    using l by (simp add: m)
  ultimately show ?thesis
    using assms(3) mem_read_in_range[of "0x200" "memory s"] mem_read_in_range[of "0x201" "memory s"]
    by (simp add: fetch_def)
qed

subsection \<open>Dispatch\<close>

lemma exec_8_silent:
  "op_n opcode \<notin> {0, 1, 2, 3, 4, 5, 6, 7, 0xE} \<Longrightarrow> exec_8 opcode s = s"
  by (simp add: exec_8_def Let_def)

lemma exec_E_silent:
  "op_kk opcode \<notin> {0x9E, 0xA1} \<Longrightarrow> exec_E opcode s = Inr s"
  by (simp add: exec_E_def Let_def)

lemma exec_F_silent:
  "op_kk opcode \<notin> {0x07, 0x0A, 0x15, 0x18, 0x1E, 0x29, 0x33, 0x55, 0x65} \<Longrightarrow>
   exec_F opcode s = Inr s"
  by (simp add: exec_F_def Let_def)

lemma execute_5: "opcode AND 0xF000 = 0x5000 \<Longrightarrow> op_n opcode \<noteq> 0 \<Longrightarrow> execute rnd opcode s = Inr s"
  using hi_not_small[of opcode] by (simp add: execute_def Let_def)

lemma execute_9: "opcode AND 0xF000 = 0x9000 \<Longrightarrow> op_n opcode \<noteq> 0 \<Longrightarrow> execute rnd opcode s = Inr s"
  using hi_not_small[of opcode] by (simp add: execute_def Let_def)

lemma execute_8: "opcode AND 0xF000 = 0x8000 \<Longrightarrow> execute rnd opcode s = Inr (exec_8 opcode s)"
  using hi_not_small[of opcode] by (simp add: execute_def Let_def)

lemma execute_D: "opcode AND 0xF000 = 0xD000 \<Longrightarrow> execute rnd opcode s = exec_D opcode s"
  using hi_not_small[of opcode] by (simp add: execute_def Let_def)

lemma execute_E: "opcode AND 0xF000 = 0xE000 \<Longrightarrow> execute rnd opcode s = exec_E opcode s"
  using hi_not_small[of opcode] by (simp add: execute_def Let_def)

lemma execute_F: "opcode AND 0xF000 = 0xF000 \<Longrightarrow> execute rnd opcode s = exec_F opcode s"
  using hi_not_small[of opcode] by (simp add: execute_def Let_def)

lemma execute_silent:
  assumes "opcode AND 0xF000 = 0x5000 \<and> op_n opcode \<noteq> 0
        \<or> opcode AND 0xF000 = 0x8000 \<and> op_n opcode \<notin> {0, 1, 2, 3, 4, 5, 6, 7, 0xE}
        \<or> opcode AND 0xF000 = 0x9000 \<and> op_n opcode \<noteq> 0
        \<or> opcode AND 0xF000 = 0xE000 \<and> op_kk opcode \<notin> {0x9E, 0xA1}
        \<or> opcode AND 0xF000 = 0xF000 \<and>
            op_kk opcode \<notin> {0x07, 0x0A, 0x15, 0x18, 0x1E, 0x29, 0x33, 0x55, 0x65}"
  shows "execute rnd opcode s = Inr s"
  using assms
proof (elim disjE conjE)
  assume "opcode AND 0xF000 = 0x5000" "op_n opcode \<noteq> 0"
  then show ?thesis by (rule execute_5)
next
  assume "opcode AND 0xF000 = 0x8000" "op_n opcode \<notin> {0, 1, 2, 3, 4, 5, 6, 7, 0xE}"
  then show ?thesis by (simp add: execute_8 exec_8_silent)
next
  assume "opcode AND 0xF000 = 0x9000" "op_n opcode \<noteq> 0"
  then show ?thesis by (rule execute_9)
next
  assume "opcode AND 0xF000 = 0xE000" "op_kk opcode \<notin> {0x9E, 0xA1}"
  then show ?thesis by (simp add: execute_E exec_E_silent)
next
  assume "opcode AND 0xF000 = 0xF000"
    "op_kk opcode \<notin> {0x07, 0x0A, 0x15, 0x18, 0x1E, 0x29, 0x33, 0x55, 0x65}"
  then show ?thesis by (simp add: execute_F exec_F_silent)
qed

lemma execute_call:
  "opcode AND 0xF000 = 0x2000 \<Longrightarrow>
   execute rnd opcode s = Inr (s\<lparr>stack := stack s @ [pc s], pc := op_nnn opcode\<rparr>)"
  using hi_not_small[of opcode] by (simp add: execute_def Let_def)

lemma execute_independent:
  "opcode AND 0xF000 \<noteq> 0xC000 \<Longrightarrow> execute r1 opcode s = execute r2 opcode s"
  by (simp add: execute_def Let_def)

subsection \<open>Loading a ROM\<close>

text \<open>
  C2, as amended. \<open>Chip8.load_rom\<close> has no size check of its own. On a memory of 4096
  cells, a ROM of at most 3584 bytes is written verbatim from address 0x200 on, no
  exception is raised and every other cell keeps its value. A longer ROM raises the
  \<open>IndexError\<close> of the list, and only after its first 3584 bytes have overwritten the
  cells 0x200 to 0xFFF. The rejection before any mutation is the size check of the
  caller \<open>App.load_rom\<close>, which reports the ROM as too large and leaves its machine
  as it was.
\<close>

theorem load_rom_no_size_check:
  assumes "length (memory s) = MEMORY_SIZE"
  shows "(length rom \<le> 3584 \<longrightarrow>
            load_rom rom s =
              (None, s\<lparr>memory := take 0x200 (memory s) @ rom @
                                  drop (0x200 + length rom) (memory s)\<rparr>))
       \<and> (length rom > 3584 \<longrightarrow>
            load_rom rom s =
              (Some MemoryIndexError, s\<lparr>memory := take 0x200 (memory s) @ take 3584 rom\<rparr>))
       \<and> (length rom > 3584 \<longrightarrow> app_load_rom rom c = (RomTooLarge, c))"
  using assms by (simp add: load_rom_fits load_rom_overflow app_load_rom_def MEMORY_SIZE_def)

text \<open>A ROM of two bytes, and a ROM of 3585 bytes, on the initial machine.\<close>

theorem load_rom_no_size_check_witness:
  "length (memory init) = MEMORY_SIZE
   \<and> load_rom [0x60, 0x05] init =
       (None, init\<lparr>memory := take 0x200 (memory init) @ [0x60, 0x05] @ drop 0x202 (memory init)\<rparr>)
   \<and> load_rom (replicate 3585 7) init =
       (Some MemoryIndexError, init\<lparr>memory := take 0x200 (memory init) @ replicate 3584 7\<rparr>)
   \<and> app_load_rom (replicate 3585 7) None = (RomTooLarge, None)"
  using load_rom_no_size_check[of init "[0x60, 0x05]" None]
        load_rom_no_size_check[of init "replicate 3585 7" None]
  by (simp add: length_memory_init MEMORY_SIZE_def)

text \<open>
  C2 as stated fails: \<open>Chip8.load_rom\<close> on 3585 bytes raises, and the cell 0x200, which
  held 0, holds the first byte of the ROM afterwards.
\<close>

theorem load_rom_oversize_counterexample:
  "fst (load_rom (replicate 3585 7) init) = Some MemoryIndexError
   \<and> memory init ! 0x200 = 0
   \<and> memory (snd (load_rom (replicate 3585 7) init)) ! 0x200 = 7"
proof -
  have "load_rom (replicate 3585 7) init =
    (Some MemoryIndexError, init\<lparr>memory := take 0x200 (memory init) @ take 3584 (replicate 3585 7)\<rparr>)"
    by (rule load_rom_overflow) (simp_all add: length_memory_init MEMORY_SIZE_def)
  moreover have "memory init ! 0x200 = 0"
    by (simp add: init_def fontset_def MEMORY_SIZE_def nth_append)
  ultimately show ?thesis
    by (simp add: nth_append length_memory_init)
qed

subsection \<open>Opcodes that no instruction matches\<close>

text \<open>
  C5. The claim asks for an error on every opcode that matches no instruction. The
  code does not deliver it: when the fetched opcode is 5xyn or 9xyn with \<open>n\<close> not 0,
  8xyn with \<open>n\<close> not handled, Exkk or Fxkk with \<open>kk\<close> not handled, \<open>cycle\<close> returns
  normally with nothing changed but the advanced \<open>pc\<close>; and \<open>cycle\<close> never raises
  the \<open>Unknown opcode\<close> exception at all, since every value of the high nibble has a
  branch before the final \<open>else\<close>.
\<close>

theorem unmatched_opcode_is_silent:
  assumes "fetch s = Inr opcode"
    and "opcode AND 0xF000 = 0x5000 \<and> op_n opcode \<noteq> 0
        \<or> opcode AND 0xF000 = 0x8000 \<and> op_n opcode \<notin> {0, 1, 2, 3, 4, 5, 6, 7, 0xE}
        \<or> opcode AND 0xF000 = 0x9000 \<and> op_n opcode \<noteq> 0
        \<or> opcode AND 0xF000 = 0xE000 \<and> op_kk opcode \<notin> {0x9E, 0xA1}
        \<or> opcode AND 0xF000 = 0xF000 \<and>
            op_kk opcode \<notin> {0x07, 0x0A, 0x15, 0x18, 0x1E, 0x29, 0x33, 0x55, 0x65}"
  shows "cycle rnd s = Inr (s\<lparr>pc := pc s + 2\<rparr>)
       \<and> (\<forall>rnd' s' c. cycle rnd' s' \<noteq> Inl (UnknownOpcode c))"
proof
  show "cycle rnd s = Inr (s\<lparr>pc := pc s + 2\<rparr>)"
    using assms by (simp add: cycle_fetch execute_silent)
  show "\<forall>rnd' s' c. cycle rnd' s' \<noteq> Inl (UnknownOpcode c)"
    using cycle_error by fastforce
qed

text \<open>The opcode 5001 on a freshly loaded machine.\<close>

theorem unmatched_opcode_is_silent_witness:
  "fetch (boot [0x50, 0x01]) = Inr 0x5001
   \<and> cycle 0 (boot [0x50, 0x01]) = Inr ((boot [0x50, 0x01])\<lparr>pc := 0x202\<rparr>)"
proof -
  have f: "fetch (boot [0x50, 0x01]) = Inr 0x5001"
    using fetch_boot[of "boot [0x50, 0x01]" "0x50" "0x01" "[]"] by (simp add: boot_fields)
  show ?thesis
    using f unmatched_opcode_is_silent[OF f, of 0] by (simp add: op_n_def boot_fields)
qed

subsection \<open>CALL\<close>

text \<open>
  C6, as amended. CALL (2nnn) never fails once the opcode is fetched: it appends the
  address of the next instruction to \<open>self.stack\<close>, whatever the length of the list,
  and jumps to \<open>nnn\<close>. The stack has no capacity.
\<close>

theorem call_has_no_stack_limit:
  assumes "fetch s = Inr opcode" and "opcode AND 0xF000 = 0x2000"
  shows "cycle rnd s = Inr (s\<lparr>pc := op_nnn opcode, stack := stack s @ [pc s + 2]\<rparr>)"
  using assms by (simp add: cycle_fetch execute_call)

text \<open>CALL 345 on a stack of 16 addresses.\<close>

theorem call_has_no_stack_limit_witness:
  "fetch ((boot [0x23, 0x45])\<lparr>stack := replicate 16 0x202\<rparr>) = Inr 0x2345
   \<and> cycle 0 ((boot [0x23, 0x45])\<lparr>stack := replicate 16 0x202\<rparr>) =
       Inr ((boot [0x23, 0x45])\<lparr>pc := 0x345, stack := replicate 16 0x202 @ [0x202]\<rparr>)"
proof -
  let ?s = "(boot [0x23, 0x45])\<lparr>stack := replicate 16 0x202\<rparr>"
  have f: "fetch ?s = Inr 0x2345"
    using fetch_boot[of ?s "0x23" "0x45" "[]"] by (simp add: boot_fields)
  show ?thesis
    using f call_has_no_stack_limit[OF f, of 0] by (simp add: op_nnn_def boot_fields)
qed

text \<open>
  C6 as stated fails: with 16 return addresses on the stack, CALL succeeds and the
  stack holds 17.
\<close>

theorem call_on_full_stack_counterexample:
  "length (stack ((boot [0x23, 0x45])\<lparr>stack := replicate 16 0x202\<rparr>)) = 16
   \<and> (\<exists>s'. cycle 0 ((boot [0x23, 0x45])\<lparr>stack := replicate 16 0x202\<rparr>) = Inr s'
           \<and> length (stack s') = 17)"
proof -
  let ?s = "(boot [0x23, 0x45])\<lparr>stack := replicate 16 0x202\<rparr>"
  have f: "fetch ?s = Inr 0x2345"
    using fetch_boot[of ?s "0x23" "0x45" "[]"] by (simp add: boot_fields)
  have "cycle 0 ?s = Inr (?s\<lparr>stack := stack ?s @ [pc ?s + 2], pc := op_nnn 0x2345\<rparr>)"
    using f by (simp add: cycle_fetch execute_call)
  then show ?thesis by simp
qed

subsection \<open>Determinism\<close>

text \<open>
  C10. When the opcode that \<open>cycle\<close> fetches is not Cxkk (also when the fetch
  raises), the outcome of \<open>cycle\<close> does not depend on the random byte: two runs from
  the same state give the same result, whatever \<open>random.randint\<close> would return.
\<close>

theorem cycle_deterministic_unless_rnd:
  assumes "\<forall>opcode. fetch s = Inr opcode \<longrightarrow> opcode AND 0xF000 \<noteq> 0xC000"
  shows "cycle r1 s = cycle r2 s"
  using assms by (auto simp: cycle_def execute_independent split: sum.splits)

text \<open>ADD V1, 01 with the random bytes 0 and 255.\<close>

theorem cycle_deterministic_unless_rnd_witness:
  "fetch (boot [0x71, 0x01]) = Inr 0x7101 \<and> cycle 0 (boot [0x71, 0x01]) = cycle 255 (boot [0x71, 0x01])"
proof -
  have f: "fetch (boot [0x71, 0x01]) = Inr 0x7101"
    using fetch_boot[of "boot [0x71, 0x01]" "0x71" "0x01" "[]"] by (simp add: boot_fields)
  show ?thesis
    using f cycle_deterministic_unless_rnd[of "boot [0x71, 0x01]" 0 255] by simp
qed


subsection \<open>When the loops over the memory raise\<close>

lemma mem_write_length: "mem_write mem a v = Inr m \<Longrightarrow> length m = length mem"
  by (auto simp: mem_write_def split: option.splits)

lemma mem_write_fails_iff:
  "0 \<le> a \<Longrightarrow> (mem_write mem a v = Inl MemoryIndexError) = (int (length mem) \<le> a)"
  by (simp add: mem_write_def py_index_def)

lemma mem_read_fails_iff:
  "0 \<le> a \<Longrightarrow> (mem_read mem a = Inl MemoryIndexError) = (int (length mem) \<le> a)"
  by (simp add: mem_read_def py_index_def)

lemma store_regs_fails_iff:
  "0 \<le> i \<Longrightarrow>
   (store_regs v i ks mem = Inl MemoryIndexError) = (\<exists>k\<in>set ks. int (length mem) \<le> i + int k)"
proof (induction ks arbitrary: mem)
  case Nil
  then show ?case by simp
next
  case (Cons k ks)
  show ?case
  proof (cases "mem_write mem (i + int k) (v ! k)")
    case (Inl e)
    then have "mem_write mem (i + int k) (v ! k) = Inl MemoryIndexError"
      using mem_write_error by blast
    moreover from this have "int (length mem) \<le> i + int k"
      using Cons.prems mem_write_fails_iff[of "i + int k" mem "v ! k"] by simp
    ultimately show ?thesis by simp
  next
    case (Inr m)
    then have "\<not> int (length mem) \<le> i + int k"
      using Cons.prems mem_write_fails_iff[of "i + int k" mem "v ! k"] by simp
    moreover have "length m = length mem"
      using Inr by (rule mem_write_length)
    ultimately show ?thesis
      using Inr Cons.IH[OF Cons.prems, of m] by simp
  qed
qed

lemma load_regs_fails_iff:
  "0 \<le> i \<Longrightarrow>
   (load_regs mem i ks v = Inl MemoryIndexError) = (\<exists>k\<in>set ks. int (length mem) \<le> i + int k)"
proof (induction ks arbitrary: v)
  case Nil
  then show ?case by simp
next
  case (Cons k ks)
  show ?case
  proof (cases "mem_read mem (i + int k)")
    case (Inl e)
    then have "mem_read mem (i + int k) = Inl MemoryIndexError"
      using mem_read_error by blast
    moreover from this have "int (length mem) \<le> i + int k"
      using Cons.prems mem_read_fails_iff[of "i + int k" mem] by simp
    ultimately show ?thesis by simp
  next
    case (Inr b)
    then have "\<not> int (length mem) \<le> i + int k"
      using Cons.prems mem_read_fails_iff[of "i + int k" mem] by simp
    then show ?thesis
      using Inr Cons.IH[OF Cons.prems, of "v[k := b]"] by simp
  qed
qed

lemma draw_rows_fails_iff:
  "0 \<le> i \<Longrightarrow>
   (draw_rows mem i vx vy rows dv = Inl MemoryIndexError) =
   (\<exists>row\<in>set rows. int (length mem) \<le> i + int row)"
proof (induction rows arbitrary: dv)
  case Nil
  then show ?case by simp
next
  case (Cons row rows)
  show ?case
  proof (cases "mem_read mem (i + int row)")
    case (Inl e)
    then have "mem_read mem (i + int row) = Inl MemoryIndexError"
      using mem_read_error by blast
    moreover from this have "int (length mem) \<le> i + int row"
      using Cons.prems mem_read_fails_iff[of "i + int row" mem] by simp
    ultimately show ?thesis by simp
  next
    case (Inr b)
    then have "\<not> int (length mem) \<le> i + int row"
      using Cons.prems mem_read_fails_iff[of "i + int row" mem] by simp
    then show ?thesis
      using Inr Cons.IH[OF Cons.prems] by simp
  qed
qed

lemma store_regs_succeeds:
  "0 \<le> i \<Longrightarrow> \<forall>k\<in>set ks. i + int k < int (length mem) \<Longrightarrow> \<exists>m. store_regs v i ks mem = Inr m"
  using store_regs_fails_iff[of i v ks mem] store_regs_error[of v i ks mem]
  by (cases "store_regs v i ks mem") auto

lemma load_regs_succeeds:
  "0 \<le> i \<Longrightarrow> \<forall>k\<in>set ks. i + int k < int (length mem) \<Longrightarrow> \<exists>v'. load_regs mem i ks v = Inr v'"
  using load_regs_fails_iff[of i mem ks v] load_regs_error[of mem i ks v]
  by (cases "load_regs mem i ks v") auto

subsection \<open>The instructions of the group Fxxx that use the memory\<close>

lemma exec_F_33:
  "op_kk opcode = 0x33 \<Longrightarrow>
   exec_F opcode s =
     (let v = V s ! nat (op_x opcode) in
      case mem_write (memory s) (I s) (v div 100) of
        Inl e \<Rightarrow> Inl e
      | Inr m1 \<Rightarrow>
     (case mem_write m1 (I s + 1) ((v div 10) mod 10) of
        Inl e \<Rightarrow> Inl e
      | Inr m2 \<Rightarrow>
     (case mem_write m2 (I s + 2) (v mod 10) of
        Inl e \<Rightarrow> Inl e
      | Inr m3 \<Rightarrow> Inr (s\<lparr>memory := m3\<rparr>))))"
  by (simp add: exec_F_def Let_def)

lemma exec_F_55:
  "op_kk opcode = 0x55 \<Longrightarrow>
   exec_F opcode s =
     (case store_regs (V s) (I s) [0..<nat (op_x opcode) + 1] (memory s) of
        Inl e \<Rightarrow> Inl e
      | Inr m \<Rightarrow> Inr (s\<lparr>memory := m\<rparr>))"
  by (simp add: exec_F_def Let_def)

lemma exec_F_65:
  "op_kk opcode = 0x65 \<Longrightarrow>
   exec_F opcode s =
     (case load_regs (memory s) (I s) [0..<nat (op_x opcode) + 1] (V s) of
        Inl e \<Rightarrow> Inl e
      | Inr v \<Rightarrow> Inr (s\<lparr>V := v\<rparr>))"
  by (simp add: exec_F_def Let_def)

lemma exec_F_33_fails_iff:
  assumes "op_kk opcode = 0x33" "0 \<le> I s"
  shows "(exec_F opcode s = Inl MemoryIndexError) = (int (length (memory s)) \<le> I s + 2)"
proof -
  let ?v = "V s ! nat (op_x opcode)"
  show ?thesis
  proof (cases "I s + 2 < int (length (memory s))")
    case True
    then have "mem_write (memory s) (I s) (?v div 100) = Inr ((memory s)[nat (I s) := ?v div 100])"
      using assms(2) by (intro mem_write_in_range) simp_all
    moreover have "mem_write ((memory s)[nat (I s) := ?v div 100]) (I s + 1) (?v div 10 mod 10) =
        Inr ((memory s)[nat (I s) := ?v div 100, nat (I s + 1) := ?v div 10 mod 10])"
      using assms(2) True by (intro mem_write_in_range) simp_all
    moreover have "mem_write ((memory s)[nat (I s) := ?v div 100, nat (I s + 1) := ?v div 10 mod 10])
        (I s + 2) (?v mod 10) =
        Inr ((memory s)[nat (I s) := ?v div 100, nat (I s + 1) := ?v div 10 mod 10,
                        nat (I s + 2) := ?v mod 10])"
      using assms(2) True by (intro mem_write_in_range) simp_all
    ultimately show ?thesis
      using True by (simp add: exec_F_33[OF assms(1)] Let_def)
  next
    case False
    then have ge: "int (length (memory s)) \<le> I s + 2" by simp
    have "exec_F opcode s = Inl MemoryIndexError"
    proof (cases "mem_write (memory s) (I s) (?v div 100)")
      case (Inl e)
      then show ?thesis
        using mem_write_error[OF Inl] by (simp add: exec_F_33[OF assms(1)] Let_def)
    next
      case m1: (Inr m1)
      have l1: "length m1 = length (memory s)" using m1 by (rule mem_write_length)
      show ?thesis
      proof (cases "mem_write m1 (I s + 1) (?v div 10 mod 10)")
        case (Inl e)
        then show ?thesis
          using m1 mem_write_error[OF Inl] by (simp add: exec_F_33[OF assms(1)] Let_def)
      next
        case m2: (Inr m2)
        have "length m2 = length (memory s)" using m2 l1 mem_write_length by fastforce
        then have "mem_write m2 (I s + 2) (?v mod 10) = Inl MemoryIndexError"
          using ge by (intro mem_write_above) simp
        then show ?thesis
          using m1 m2 by (simp add: exec_F_33[OF assms(1)] Let_def)
      qed
    qed
    then show ?thesis using ge by simp
  qed
qed

subsection \<open>Well-formed states\<close>

lemma wf_state_init: "wf_state init"
  by (simp add: wf_state_def init_def fontset_def MEMORY_SIZE_def blank_display_def
      is_byte_def is_bit_def list_all_iff)

lemma wf_state_boot:
  assumes "list_all is_byte rom" "length rom \<le> 3584"
  shows "wf_state (boot rom)"
proof -
  have "list_all is_byte (memory init)"
    using wf_state_init by (simp add: wf_state_def)
  then have "list_all is_byte (take 0x200 (memory init) @ rom @ drop (0x200 + length rom) (memory init))"
    using assms(1) by (auto simp: list_all_iff dest: in_set_takeD in_set_dropD)
  then have "list_all is_byte (memory (boot rom))"
    using assms(2) by (simp add: boot_memory)
  moreover have "length (memory (boot rom)) = MEMORY_SIZE"
    using assms(2) by (simp add: length_memory_boot MEMORY_SIZE_def)
  ultimately show ?thesis
    by (simp add: wf_state_def boot_fields blank_display_def is_byte_def is_bit_def list_all_iff)
qed

lemma wf_state_memory: "wf_state s \<Longrightarrow> length (memory s) = 4096"
  by (simp add: wf_state_def MEMORY_SIZE_def)

lemma wf_state_addresses: "wf_state s \<Longrightarrow> 0 \<le> I s \<and> 0 \<le> pc s"
  by (simp add: wf_state_def)

lemma wf_state_V: "wf_state s \<Longrightarrow> length (V s) = 16"
  by (simp add: wf_state_def)

lemma wf_state_keys: "wf_state s \<Longrightarrow> length (keys s) = 16"
  by (simp add: wf_state_def)

lemma wf_state_set_I: "wf_state s \<Longrightarrow> 0 \<le> i \<Longrightarrow> wf_state (s\<lparr>I := i\<rparr>)"
  by (simp add: wf_state_def)

lemma wf_state_set_V:
  "wf_state s \<Longrightarrow> length v = 16 \<Longrightarrow> list_all is_byte v \<Longrightarrow> wf_state (s\<lparr>V := v\<rparr>)"
  by (simp add: wf_state_def)

lemma wf_state_set_keys:
  "wf_state s \<Longrightarrow> length ks = 16 \<Longrightarrow> list_all is_bit ks \<Longrightarrow> wf_state (s\<lparr>keys := ks\<rparr>)"
  by (simp add: wf_state_def)

lemma not_in_memory: "0 \<le> a \<Longrightarrow> (\<not> in_memory a) = (4096 \<le> a)"
  by (auto simp: in_memory_def)

lemma bex_upt: "(\<exists>k\<in>set [0..<n]. P k) = (\<exists>k<n. P k)"
  by auto

lemma bex_upt_Suc: "(\<exists>k\<in>set [0..<n + 1]. P k) = (\<exists>k\<le>n. P k)"
proof
  assume "\<exists>k\<in>set [0..<n + 1]. P k"
  then obtain k where "k \<in> set [0..<n + 1]" "P k" by blast
  then show "\<exists>k\<le>n. P k" by (intro exI[of _ k]) auto
next
  assume "\<exists>k\<le>n. P k"
  then obtain k where "k \<le> n" "P k" by blast
  then show "\<exists>k\<in>set [0..<n + 1]. P k" by (intro bexI[of _ k]) auto
qed

lemma outside_memory:
  "0 \<le> i \<Longrightarrow> length mem = 4096 \<Longrightarrow>
   (int (length mem) \<le> i + int k) = (\<not> in_memory (i + int k))"
  by (auto simp: in_memory_def)

subsection \<open>Memory accesses\<close>

lemma fetch_fails_iff:
  assumes "wf_state s"
  shows "(fetch s = Inl MemoryIndexError) = (\<not> in_memory (pc s) \<or> \<not> in_memory (pc s + 1))"
proof -
  have l: "length (memory s) = 4096" and p: "0 \<le> pc s"
    using assms by (simp_all add: wf_state_memory wf_state_addresses)
  show ?thesis
  proof (cases "pc s + 1 < 4096")
    case True
    then show ?thesis
      using l p mem_read_in_range[of "pc s" "memory s"] mem_read_in_range[of "pc s + 1" "memory s"]
      by (simp add: fetch_def in_memory_def)
  next
    case False
    then have "mem_read (memory s) (pc s + 1) = Inl MemoryIndexError"
      using l by (intro mem_read_above) simp
    then have "fetch s = Inl MemoryIndexError"
      by (auto simp: fetch_def split: sum.splits dest: mem_read_error)
    then show ?thesis
      using False by (simp add: in_memory_def)
  qed
qed

lemma exec_D_fails_iff:
  assumes "wf_state s"
  shows "(exec_D opcode s = Inl MemoryIndexError) =
         (\<exists>row<nat (op_n opcode). \<not> in_memory (I s + int row))"
proof -
  have l: "length (memory s) = 4096" and i: "0 \<le> I s"
    using assms by (simp_all add: wf_state_memory wf_state_addresses)
  let ?d = "draw_rows (memory s) (I s) (V s ! nat (op_x opcode)) (V s ! nat (op_y opcode))
              [0..<nat (op_n opcode)] (display s, 0)"
  have "(exec_D opcode s = Inl MemoryIndexError) = (?d = Inl MemoryIndexError)"
    by (auto simp: exec_D_def Let_def split: sum.splits)
  also have "\<dots> = (\<exists>row\<in>set [0..<nat (op_n opcode)]. int (length (memory s)) \<le> I s + int row)"
    using i by (rule draw_rows_fails_iff)
  also have "\<dots> = (\<exists>row<nat (op_n opcode). \<not> in_memory (I s + int row))"
    by (simp only: outside_memory[OF i l] bex_upt)
  finally show ?thesis .
qed

lemma exec_F_55_fails_iff:
  assumes "wf_state s" "op_kk opcode = 0x55"
  shows "(exec_F opcode s = Inl MemoryIndexError) =
         (\<exists>k\<le>nat (op_x opcode). \<not> in_memory (I s + int k))"
proof -
  have l: "length (memory s) = 4096" and i: "0 \<le> I s"
    using assms by (simp_all add: wf_state_memory wf_state_addresses)
  let ?r = "store_regs (V s) (I s) [0..<nat (op_x opcode) + 1] (memory s)"
  have "(exec_F opcode s = Inl MemoryIndexError) = (?r = Inl MemoryIndexError)"
    by (auto simp: exec_F_55[OF assms(2)] split: sum.splits)
  also have "\<dots> = (\<exists>k\<in>set [0..<nat (op_x opcode) + 1]. int (length (memory s)) \<le> I s + int k)"
    using i by (rule store_regs_fails_iff)
  also have "\<dots> = (\<exists>k\<le>nat (op_x opcode). \<not> in_memory (I s + int k))"
    by (simp only: outside_memory[OF i l] bex_upt_Suc)
  finally show ?thesis .
qed

lemma exec_F_65_fails_iff:
  assumes "wf_state s" "op_kk opcode = 0x65"
  shows "(exec_F opcode s = Inl MemoryIndexError) =
         (\<exists>k\<le>nat (op_x opcode). \<not> in_memory (I s + int k))"
proof -
  have l: "length (memory s) = 4096" and i: "0 \<le> I s"
    using assms by (simp_all add: wf_state_memory wf_state_addresses)
  let ?r = "load_regs (memory s) (I s) [0..<nat (op_x opcode) + 1] (V s)"
  have "(exec_F opcode s = Inl MemoryIndexError) = (?r = Inl MemoryIndexError)"
    by (auto simp: exec_F_65[OF assms(2)] split: sum.splits)
  also have "\<dots> = (\<exists>k\<in>set [0..<nat (op_x opcode) + 1]. int (length (memory s)) \<le> I s + int k)"
    using i by (rule load_regs_fails_iff)
  also have "\<dots> = (\<exists>k\<le>nat (op_x opcode). \<not> in_memory (I s + int k))"
    by (simp only: outside_memory[OF i l] bex_upt_Suc)
  finally show ?thesis .
qed

lemma exec_F_33_fails_in_memory:
  assumes "wf_state s" "op_kk opcode = 0x33"
  shows "(exec_F opcode s = Inl MemoryIndexError) =
         (\<not> in_memory (I s) \<or> \<not> in_memory (I s + 1) \<or> \<not> in_memory (I s + 2))"
proof -
  have l: "length (memory s) = 4096" and i: "0 \<le> I s"
    using assms by (simp_all add: wf_state_memory wf_state_addresses)
  show ?thesis
    using exec_F_33_fails_iff[OF assms(2) i] i l by (auto simp: in_memory_def)
qed

lemma wf_step: "wf_state s \<Longrightarrow> wf_state (s\<lparr>pc := pc s + 2\<rparr>)"
  by (simp add: wf_state_def)

text \<open>
  C1. On a well-formed state, each memory access of the core fails exactly when its
  address is outside \<open>[0, 4095]\<close>, with the \<open>IndexError\<close> of the list
  \<open>self.memory\<close>: the fetch reads \<open>pc\<close> and \<open>pc + 1\<close>, and a failed fetch fails the
  cycle; DRW reads \<open>I + row\<close> for every row of the sprite; Fx33 writes \<open>I\<close>,
  \<open>I + 1\<close> and \<open>I + 2\<close>; Fx55 writes and Fx65 reads \<open>I + k\<close> for \<open>k\<close> up to \<open>x\<close>.
  With every address inside, the error does not occur. (A well-formed state has no
  negative \<open>pc\<close> or \<open>I\<close>, so the negative indices of Python never come up.)
\<close>

theorem memory_access_bounds:
  assumes "wf_state s"
  shows "(fetch s = Inl MemoryIndexError) = (\<not> in_memory (pc s) \<or> \<not> in_memory (pc s + 1))
       \<and> (fetch s = Inl MemoryIndexError \<longrightarrow> cycle rnd s = Inl MemoryIndexError)
       \<and> (fetch s = Inr opcode \<and> opcode AND 0xF000 = 0xD000 \<longrightarrow>
            (cycle rnd s = Inl MemoryIndexError) =
            (\<exists>row<nat (op_n opcode). \<not> in_memory (I s + int row)))
       \<and> (fetch s = Inr opcode \<and> opcode AND 0xF000 = 0xF000 \<and> op_kk opcode = 0x33 \<longrightarrow>
            (cycle rnd s = Inl MemoryIndexError) =
            (\<not> in_memory (I s) \<or> \<not> in_memory (I s + 1) \<or> \<not> in_memory (I s + 2)))
       \<and> (fetch s = Inr opcode \<and> opcode AND 0xF000 = 0xF000 \<and> op_kk opcode = 0x55 \<longrightarrow>
            (cycle rnd s = Inl MemoryIndexError) =
            (\<exists>k\<le>nat (op_x opcode). \<not> in_memory (I s + int k)))
       \<and> (fetch s = Inr opcode \<and> opcode AND 0xF000 = 0xF000 \<and> op_kk opcode = 0x65 \<longrightarrow>
            (cycle rnd s = Inl MemoryIndexError) =
            (\<exists>k\<le>nat (op_x opcode). \<not> in_memory (I s + int k)))"
proof -
  let ?s = "s\<lparr>pc := pc s + 2\<rparr>"
  have wf: "wf_state ?s" using assms by (rule wf_step)
  have "(fetch s = Inl MemoryIndexError) = (\<not> in_memory (pc s) \<or> \<not> in_memory (pc s + 1))"
    using assms by (rule fetch_fails_iff)
  moreover have "fetch s = Inl MemoryIndexError \<longrightarrow> cycle rnd s = Inl MemoryIndexError"
    by (simp add: cycle_def)
  moreover have "fetch s = Inr opcode \<and> opcode AND 0xF000 = 0xD000 \<longrightarrow>
            (cycle rnd s = Inl MemoryIndexError) =
            (\<exists>row<nat (op_n opcode). \<not> in_memory (I s + int row))"
    using exec_D_fails_iff[OF wf, of opcode] by (simp add: cycle_fetch execute_D)
  moreover have "fetch s = Inr opcode \<and> opcode AND 0xF000 = 0xF000 \<and> op_kk opcode = 0x33 \<longrightarrow>
            (cycle rnd s = Inl MemoryIndexError) =
            (\<not> in_memory (I s) \<or> \<not> in_memory (I s + 1) \<or> \<not> in_memory (I s + 2))"
    using exec_F_33_fails_in_memory[OF wf, of opcode] by (simp add: cycle_fetch execute_F)
  moreover have "fetch s = Inr opcode \<and> opcode AND 0xF000 = 0xF000 \<and> op_kk opcode = 0x55 \<longrightarrow>
            (cycle rnd s = Inl MemoryIndexError) =
            (\<exists>k\<le>nat (op_x opcode). \<not> in_memory (I s + int k))"
    using exec_F_55_fails_iff[OF wf, of opcode] by (simp add: cycle_fetch execute_F)
  moreover have "fetch s = Inr opcode \<and> opcode AND 0xF000 = 0xF000 \<and> op_kk opcode = 0x65 \<longrightarrow>
            (cycle rnd s = Inl MemoryIndexError) =
            (\<exists>k\<le>nat (op_x opcode). \<not> in_memory (I s + int k))"
    using exec_F_65_fails_iff[OF wf, of opcode] by (simp add: cycle_fetch execute_F)
  ultimately show ?thesis by blast
qed

text \<open>Fx55 with \<open>x = 2\<close>: from \<open>I = 4094\<close> the third write is at 4096; from 4093 all fit.\<close>

theorem memory_access_bounds_witness:
  "wf_state ((boot [0xF2, 0x55])\<lparr>I := 4094\<rparr>)
   \<and> fetch ((boot [0xF2, 0x55])\<lparr>I := 4094\<rparr>) = Inr 0xF255
   \<and> cycle 0 ((boot [0xF2, 0x55])\<lparr>I := 4094\<rparr>) = Inl MemoryIndexError
   \<and> wf_state ((boot [0xF2, 0x55])\<lparr>I := 4093\<rparr>)
   \<and> cycle 0 ((boot [0xF2, 0x55])\<lparr>I := 4093\<rparr>) \<noteq> Inl MemoryIndexError"
proof -
  let ?s = "(boot [0xF2, 0x55])\<lparr>I := 4094\<rparr>"
  let ?t = "(boot [0xF2, 0x55])\<lparr>I := 4093\<rparr>"
  have b: "wf_state (boot [0xF2, 0x55])"
    by (rule wf_state_boot) (simp_all add: is_byte_def)
  have wf: "wf_state ?s" "wf_state ?t"
    using b by (simp_all add: wf_state_set_I)
  have f: "fetch ?s = Inr 0xF255" "fetch ?t = Inr 0xF255"
    using fetch_boot[of ?s "0xF2" "0x55" "[]"] fetch_boot[of ?t "0xF2" "0x55" "[]"]
    by (simp_all add: boot_fields)
  have x: "nat (op_x 0xF255) = 2" "op_kk 0xF255 = 0x55"
    by (simp_all add: op_x_def op_kk_def)
  have "\<exists>k\<le>nat (op_x 0xF255). \<not> in_memory (I ?s + int k)"
    unfolding x by (intro exI[of _ 2]) (simp add: in_memory_def)
  then have "cycle 0 ?s = Inl MemoryIndexError"
    using memory_access_bounds[OF wf(1), of 0 "0xF255"] f(1) x(2) by simp
  moreover have "\<not> (\<exists>k\<le>nat (op_x 0xF255). \<not> in_memory (I ?t + int k))"
    unfolding x by (auto simp: in_memory_def)
  then have "cycle 0 ?t \<noteq> Inl MemoryIndexError"
    using memory_access_bounds[OF wf(2), of 0 "0xF255"] f(2) x(2) by simp
  ultimately show ?thesis
    using wf f by simp
qed

subsection \<open>Fx55 and Fx65\<close>

text \<open>
  C9. Fx55 and Fx65 leave the index register \<open>I\<close> as it is, and Fx55 leaves every
  register \<open>V0..VF\<close> as it is. Both return normally on a well-formed state whose
  addresses \<open>I .. I + x\<close> are inside the memory.
\<close>

theorem store_load_keep_I:
  assumes "fetch s = Inr opcode" and "opcode AND 0xF000 = 0xF000"
    and "op_kk opcode = 0x55 \<or> op_kk opcode = 0x65"
  shows "(\<forall>s'. cycle rnd s = Inr s' \<longrightarrow> I s' = I s \<and> (op_kk opcode = 0x55 \<longrightarrow> V s' = V s))
       \<and> (wf_state s \<and> in_memory (I s + op_x opcode) \<longrightarrow> (\<exists>s'. cycle rnd s = Inr s'))"
proof
  have c: "cycle rnd s = exec_F opcode (s\<lparr>pc := pc s + 2\<rparr>)"
    using assms(1,2) by (simp add: cycle_fetch execute_F)
  show "\<forall>s'. cycle rnd s = Inr s' \<longrightarrow> I s' = I s \<and> (op_kk opcode = 0x55 \<longrightarrow> V s' = V s)"
    using assms(3)
  proof
    assume k: "op_kk opcode = 0x55"
    show ?thesis
      unfolding c exec_F_55[OF k] by (auto split: sum.splits)
  next
    assume k: "op_kk opcode = 0x65"
    show ?thesis
      unfolding c exec_F_65[OF k] using k by (auto split: sum.splits)
  qed
  show "wf_state s \<and> in_memory (I s + op_x opcode) \<longrightarrow> (\<exists>s'. cycle rnd s = Inr s')"
  proof
    assume a: "wf_state s \<and> in_memory (I s + op_x opcode)"
    then have wf: "wf_state (s\<lparr>pc := pc s + 2\<rparr>)" by (simp add: wf_step)
    have i: "0 \<le> I s" using a by (simp add: wf_state_addresses)
    have "0 \<le> op_x opcode" by (simp add: op_x_nibble)
    then have "\<not> (\<exists>k\<le>nat (op_x opcode). \<not> in_memory (I s + int k))"
      using a i by (auto simp: in_memory_def)
    then have "exec_F opcode (s\<lparr>pc := pc s + 2\<rparr>) \<noteq> Inl MemoryIndexError"
      using assms(3) exec_F_55_fails_iff[OF wf, of opcode] exec_F_65_fails_iff[OF wf, of opcode]
      by auto
    then show "\<exists>s'. cycle rnd s = Inr s'"
      unfolding c using exec_F_error[of opcode "s\<lparr>pc := pc s + 2\<rparr>"]
      by (cases "exec_F opcode (s\<lparr>pc := pc s + 2\<rparr>)") auto
  qed
qed

text \<open>Fx55 with \<open>x = 2\<close> and \<open>I = 0x300\<close>.\<close>

theorem store_load_keep_I_witness:
  "fetch ((boot [0xF2, 0x55])\<lparr>I := 0x300\<rparr>) = Inr 0xF255
   \<and> wf_state ((boot [0xF2, 0x55])\<lparr>I := 0x300\<rparr>)
   \<and> (\<exists>s'. cycle 0 ((boot [0xF2, 0x55])\<lparr>I := 0x300\<rparr>) = Inr s'
           \<and> I s' = 0x300 \<and> V s' = replicate 16 0)"
proof -
  let ?s = "(boot [0xF2, 0x55])\<lparr>I := 0x300\<rparr>"
  have b: "wf_state (boot [0xF2, 0x55])"
    by (rule wf_state_boot) (simp_all add: is_byte_def)
  have wf: "wf_state ?s"
    using b by (simp add: wf_state_set_I)
  have f: "fetch ?s = Inr 0xF255"
    using fetch_boot[of ?s "0xF2" "0x55" "[]"] by (simp add: boot_fields)
  have x: "op_x 0xF255 = 2" "op_kk 0xF255 = 0x55" "0xF255 AND 0xF000 = (0xF000::int)"
    by (simp_all add: op_x_def op_kk_def)
  have m: "in_memory (I ?s + op_x 0xF255)"
    by (simp add: x in_memory_def)
  show ?thesis
    using store_load_keep_I[OF f x(3), of 0] x(2) wf m f by (auto simp: boot_fields)
qed

subsection \<open>8xy4, 8xy5 and 8xy7\<close>

lemma exec_8_4:
  "op_n opcode = 4 \<Longrightarrow>
   exec_8 opcode s =
     s\<lparr>V := ((V s)[0xF := (if V s ! nat (op_x opcode) + V s ! nat (op_y opcode) > 0xFF then 1 else 0)])
              [nat (op_x opcode) := (V s ! nat (op_x opcode) + V s ! nat (op_y opcode)) AND 0xFF]\<rparr>"
  by (simp add: exec_8_def Let_def)

lemma exec_8_5:
  "op_n opcode = 5 \<Longrightarrow>
   exec_8 opcode s =
     (let v1 = (V s)[0xF := (if V s ! nat (op_x opcode) > V s ! nat (op_y opcode) then 1 else 0)]
      in s\<lparr>V := v1[nat (op_x opcode) := (v1 ! nat (op_x opcode) - v1 ! nat (op_y opcode)) AND 0xFF]\<rparr>)"
  by (simp add: exec_8_def Let_def)

lemma exec_8_7:
  "op_n opcode = 7 \<Longrightarrow>
   exec_8 opcode s =
     (let v1 = (V s)[0xF := (if V s ! nat (op_y opcode) > V s ! nat (op_x opcode) then 1 else 0)]
      in s\<lparr>V := v1[nat (op_x opcode) := (v1 ! nat (op_y opcode) - v1 ! nat (op_x opcode)) AND 0xFF]\<rparr>)"
  by (simp add: exec_8_def Let_def)

lemma nat_nibble_neq: "0 \<le> k \<Longrightarrow> k \<noteq> 0xF \<Longrightarrow> nat k \<noteq> 15"
  by auto

text \<open>
  C4, as amended. For every opcode 8xy4, 8xy5 or 8xy7 and all register values the
  cycle returns normally. When \<open>x\<close> is not 0xF, VF is exactly the carry or borrow
  condition of the operands as they were before the instruction, for every \<open>y\<close>, 0xF
  included. \<open>V[x]\<close> is the sum or difference truncated to 8 bits for 8xy4 with every
  \<open>x\<close> and \<open>y\<close> (so 8Fy4 leaves the truncated sum in VF), and for 8xy5 and 8xy7 when
  neither \<open>x\<close> nor \<open>y\<close> is 0xF.
\<close>

theorem alu_flag_and_result:
  assumes "wf_state s" and "fetch s = Inr opcode" and "opcode AND 0xF000 = 0x8000"
    and "op_n opcode = 4 \<or> op_n opcode = 5 \<or> op_n opcode = 7"
  shows "\<exists>s'. cycle rnd s = Inr s'
       \<and> (op_x opcode \<noteq> 0xF \<longrightarrow>
            V s' ! 0xF =
              spec_flag (op_n opcode) (V s ! nat (op_x opcode)) (V s ! nat (op_y opcode)))
       \<and> (op_n opcode = 4 \<or> op_x opcode \<noteq> 0xF \<and> op_y opcode \<noteq> 0xF \<longrightarrow>
            V s' ! nat (op_x opcode) =
              spec_result (op_n opcode) (V s ! nat (op_x opcode)) (V s ! nat (op_y opcode)))"
proof -
  let ?x = "nat (op_x opcode)" and ?y = "nat (op_y opcode)"
  have c: "cycle rnd s = Inr (exec_8 opcode (s\<lparr>pc := pc s + 2\<rparr>))"
    using assms(2,3) by (simp add: cycle_fetch execute_8)
  have l: "length (V s) = 16"
    using assms(1) by (rule wf_state_V)
  have x: "?x < 16" and y: "?y < 16"
    by (rule op_x_less, rule op_y_less)
  have nx: "op_x opcode \<noteq> 0xF \<Longrightarrow> ?x \<noteq> 15"
    using nat_nibble_neq[of "op_x opcode"] by (simp add: op_x_nibble)
  have ny: "op_y opcode \<noteq> 0xF \<Longrightarrow> ?y \<noteq> 15"
    using nat_nibble_neq[of "op_y opcode"] by (simp add: op_y_nibble)
  from assms(4) show ?thesis
  proof (elim disjE)
    assume n: "op_n opcode = 4"
    show ?thesis
      unfolding c exec_8_4[OF n] using l x y nx
      by (simp add: n spec_flag_def spec_result_def and_ff)
  next
    assume n: "op_n opcode = 5"
    show ?thesis
      unfolding c exec_8_5[OF n] using l x y nx ny
      by (simp add: n spec_flag_def spec_result_def and_ff Let_def)
  next
    assume n: "op_n opcode = 7"
    show ?thesis
      unfolding c exec_8_7[OF n] using l x y nx ny
      by (simp add: n spec_flag_def spec_result_def and_ff Let_def)
  qed
qed

text \<open>
  SUB V0, V1 with \<open>V0 = 3\<close> and \<open>V1 = 10\<close>: no flag, and \<open>-7\<close> truncated is 249.
  SUB V0, VF with \<open>V0 = 10\<close> and \<open>VF = 3\<close>: the flag is 1. ADD VF, V1 with \<open>VF = 250\<close>
  and \<open>V1 = 10\<close>: the truncated sum 4 is in VF.
\<close>

theorem alu_flag_and_result_witness:
  "wf_state ((boot [0x80, 0x15])\<lparr>V := (replicate 16 0)[0 := 3, 1 := 10]\<rparr>)
   \<and> fetch ((boot [0x80, 0x15])\<lparr>V := (replicate 16 0)[0 := 3, 1 := 10]\<rparr>) = Inr 0x8015
   \<and> (\<exists>s'. cycle 0 ((boot [0x80, 0x15])\<lparr>V := (replicate 16 0)[0 := 3, 1 := 10]\<rparr>) = Inr s'
           \<and> V s' ! 0xF = 0 \<and> V s' ! 0 = 249)
   \<and> wf_state ((boot [0x80, 0xF5])\<lparr>V := (replicate 16 0)[0 := 10, 0xF := 3]\<rparr>)
   \<and> fetch ((boot [0x80, 0xF5])\<lparr>V := (replicate 16 0)[0 := 10, 0xF := 3]\<rparr>) = Inr 0x80F5
   \<and> (\<exists>s'. cycle 0 ((boot [0x80, 0xF5])\<lparr>V := (replicate 16 0)[0 := 10, 0xF := 3]\<rparr>) = Inr s'
           \<and> V s' ! 0xF = 1)
   \<and> wf_state ((boot [0x8F, 0x14])\<lparr>V := (replicate 16 0)[0xF := 250, 1 := 10]\<rparr>)
   \<and> fetch ((boot [0x8F, 0x14])\<lparr>V := (replicate 16 0)[0xF := 250, 1 := 10]\<rparr>) = Inr 0x8F14
   \<and> (\<exists>s'. cycle 0 ((boot [0x8F, 0x14])\<lparr>V := (replicate 16 0)[0xF := 250, 1 := 10]\<rparr>) = Inr s'
           \<and> V s' ! 0xF = 4)"
proof -
  let ?s = "(boot [0x80, 0x15])\<lparr>V := (replicate 16 0)[0 := 3, 1 := 10]\<rparr>"
  let ?t = "(boot [0x80, 0xF5])\<lparr>V := (replicate 16 0)[0 := 10, 0xF := 3]\<rparr>"
  let ?u = "(boot [0x8F, 0x14])\<lparr>V := (replicate 16 0)[0xF := 250, 1 := 10]\<rparr>"
  have b: "wf_state (boot [0x80, 0x15])" "wf_state (boot [0x80, 0xF5])"
    "wf_state (boot [0x8F, 0x14])"
    by (rule wf_state_boot, simp_all add: is_byte_def)+
  have wf: "wf_state ?s" "wf_state ?t" "wf_state ?u"
    using b by (simp_all add: wf_state_set_V is_byte_def list_all_length nth_list_update)
  have f: "fetch ?s = Inr 0x8015" "fetch ?t = Inr 0x80F5" "fetch ?u = Inr 0x8F14"
    using fetch_boot[of ?s "0x80" "0x15" "[]"] fetch_boot[of ?t "0x80" "0xF5" "[]"]
      fetch_boot[of ?u "0x8F" "0x14" "[]"]
    by (simp_all add: boot_fields)
  have d: "op_x 0x8015 = 0" "op_y 0x8015 = 1" "op_n 0x8015 = 5"
    "0x8015 AND 0xF000 = (0x8000::int)"
    "op_x 0x80F5 = 0" "op_y 0x80F5 = 15" "op_n 0x80F5 = 5"
    "0x80F5 AND 0xF000 = (0x8000::int)"
    "op_x 0x8F14 = 15" "op_y 0x8F14 = 1" "op_n 0x8F14 = 4"
    "0x8F14 AND 0xF000 = (0x8000::int)"
    by (simp_all add: op_x_def op_y_def op_n_def)
  have 1: "\<exists>s'. cycle 0 ?s = Inr s' \<and> V s' ! 0xF = 0 \<and> V s' ! 0 = 249"
    using alu_flag_and_result[OF wf(1) f(1) d(4), of 0]
    by (simp add: d spec_flag_def spec_result_def)
  have 2: "\<exists>s'. cycle 0 ?t = Inr s' \<and> V s' ! 0xF = 1"
    using alu_flag_and_result[OF wf(2) f(2) d(8), of 0]
    by (auto simp: d spec_flag_def spec_result_def)
  have 3: "\<exists>s'. cycle 0 ?u = Inr s' \<and> V s' ! 0xF = 4"
    using alu_flag_and_result[OF wf(3) f(3) d(12), of 0]
    by (auto simp: d spec_flag_def spec_result_def)
  show ?thesis
    using wf f 1 2 3 by simp
qed

text \<open>
  C4 as stated fails when VF is an operand. SUB V0, VF with \<open>V0 = 10\<close> and \<open>VF = 3\<close>
  leaves 9 in \<open>V0\<close>, not 7: the flag is written before \<open>V[y]\<close> is read again. ADD VF, V1
  with \<open>VF = 5\<close> and \<open>V1 = 3\<close> leaves the sum 8 in VF, not the carry 0: the result is
  written after the flag, into the same register. SUB VF, V1 with \<open>VF = 5\<close> and
  \<open>V1 = 3\<close> leaves 254 in VF, neither the flag 1 nor the difference 2.
\<close>

theorem alu_VF_operand_counterexample:
  "(\<exists>s'. cycle 0 ((boot [0x80, 0xF5])\<lparr>V := (replicate 16 0)[0 := 10, 0xF := 3]\<rparr>) = Inr s'
         \<and> V s' ! 0 = 9)
   \<and> spec_result 5 10 3 = 7
   \<and> (\<exists>s'. cycle 0 ((boot [0x8F, 0x14])\<lparr>V := (replicate 16 0)[0xF := 5, 1 := 3]\<rparr>) = Inr s'
         \<and> V s' ! 0xF = 8)
   \<and> spec_flag 4 5 3 = 0
   \<and> (\<exists>s'. cycle 0 ((boot [0x8F, 0x15])\<lparr>V := (replicate 16 0)[0xF := 5, 1 := 3]\<rparr>) = Inr s'
         \<and> V s' ! 0xF = 254)
   \<and> spec_flag 5 5 3 = 1 \<and> spec_result 5 5 3 = 2"
proof -
  let ?s = "(boot [0x80, 0xF5])\<lparr>V := (replicate 16 0)[0 := 10, 0xF := 3]\<rparr>"
  let ?t = "(boot [0x8F, 0x14])\<lparr>V := (replicate 16 0)[0xF := 5, 1 := 3]\<rparr>"
  let ?u = "(boot [0x8F, 0x15])\<lparr>V := (replicate 16 0)[0xF := 5, 1 := 3]\<rparr>"
  have f: "fetch ?s = Inr 0x80F5" "fetch ?t = Inr 0x8F14" "fetch ?u = Inr 0x8F15"
    using fetch_boot[of ?s "0x80" "0xF5" "[]"] fetch_boot[of ?t "0x8F" "0x14" "[]"]
      fetch_boot[of ?u "0x8F" "0x15" "[]"]
    by (simp_all add: boot_fields)
  have d: "nat (op_x 0x80F5) = 0" "nat (op_y 0x80F5) = 15" "op_n 0x80F5 = 5"
          "0x80F5 AND 0xF000 = (0x8000::int)"
          "nat (op_x 0x8F14) = 15" "nat (op_y 0x8F14) = 1" "op_n 0x8F14 = 4"
          "0x8F14 AND 0xF000 = (0x8000::int)"
          "nat (op_x 0x8F15) = 15" "nat (op_y 0x8F15) = 1" "op_n 0x8F15 = 5"
          "0x8F15 AND 0xF000 = (0x8000::int)"
    by (simp_all add: op_x_def op_y_def op_n_def)
  have "cycle 0 ?s = Inr (exec_8 0x80F5 (?s\<lparr>pc := pc ?s + 2\<rparr>))"
    using f(1) d(4) by (simp add: cycle_fetch execute_8)
  moreover have "V (exec_8 0x80F5 (?s\<lparr>pc := pc ?s + 2\<rparr>)) ! 0 = 9"
    by (simp add: exec_8_5[OF d(3)] d Let_def)
  moreover have "cycle 0 ?t = Inr (exec_8 0x8F14 (?t\<lparr>pc := pc ?t + 2\<rparr>))"
    using f(2) d(8) by (simp add: cycle_fetch execute_8)
  moreover have "V (exec_8 0x8F14 (?t\<lparr>pc := pc ?t + 2\<rparr>)) ! 0xF = 8"
    by (simp add: exec_8_4[OF d(7)] d)
  moreover have "cycle 0 ?u = Inr (exec_8 0x8F15 (?u\<lparr>pc := pc ?u + 2\<rparr>))"
    using f(3) d(12) by (simp add: cycle_fetch execute_8)
  moreover have "V (exec_8 0x8F15 (?u\<lparr>pc := pc ?u + 2\<rparr>)) ! 0xF = 254"
    by (simp add: exec_8_5[OF d(11)] d Let_def)
  ultimately show ?thesis
    by (simp add: spec_flag_def spec_result_def)
qed

subsection \<open>Fx0A\<close>

lemma scan_keys_None: "(scan_keys ks is = None) = (\<forall>i\<in>set is. ks ! i = 0)"
  by (induction "is") auto

lemma scan_keys_first:
  "\<forall>j\<in>set pre. ks ! j = 0 \<Longrightarrow> ks ! k \<noteq> 0 \<Longrightarrow> scan_keys ks (pre @ k # post) = Some k"
  by (induction pre) auto

lemma scan_keys_lowest:
  assumes "k < 16" "ks ! k \<noteq> 0" "\<forall>j<k. ks ! j = 0"
  shows "scan_keys ks [0..<16] = Some k"
proof -
  have "[0..<16] = [0..<k] @ [k..<16]"
    using assms(1) upt_add_eq_append[of 0 k "16 - k"] by simp
  also have "[k..<16] = k # [Suc k..<16]"
    using assms(1) by (simp add: upt_conv_Cons)
  finally have "[0..<16] = [0..<k] @ k # [Suc k..<16]" .
  moreover have "\<forall>j\<in>set [0..<k]. ks ! j = 0"
    using assms(3) by simp
  ultimately show ?thesis
    using assms(2) scan_keys_first[of "[0..<k]" ks k "[Suc k..<16]"] by simp
qed

lemma exec_F_0A:
  "op_kk opcode = 0x0A \<Longrightarrow>
   exec_F opcode s =
     (case scan_keys (keys s) [0..<16] of
        None \<Rightarrow> Inr (s\<lparr>pc := pc s - 2\<rparr>)
      | Some pressed \<Rightarrow> Inr (s\<lparr>V := (V s)[nat (op_x opcode) := int pressed]\<rparr>))"
  by (simp add: exec_F_def Let_def)

lemma run_fixed: "(\<And>rnd. cycle rnd s = Inr s) \<Longrightarrow> run rnds s = Inr s"
  by (induction rnds) simp_all

text \<open>
  C7. When the fetched opcode is Fx0A and no key is pressed, the cycle returns the
  state it started from, \<open>pc\<close> included, and so does any number of further cycles
  while no key is pressed. When a key is pressed, \<open>V[x]\<close> becomes the lowest index of a
  pressed key and \<open>pc\<close> is advanced by 2; nothing else changes.
\<close>

theorem wait_for_key:
  assumes "wf_state s" and "fetch s = Inr opcode" and "opcode AND 0xF000 = 0xF000"
    and "op_kk opcode = 0x0A"
  shows "((\<forall>i<16. keys s ! i = 0) \<longrightarrow> cycle rnd s = Inr s \<and> run rnds s = Inr s)
       \<and> (\<forall>k<16. keys s ! k \<noteq> 0 \<and> (\<forall>j<k. keys s ! j = 0) \<longrightarrow>
            cycle rnd s = Inr (s\<lparr>pc := pc s + 2, V := (V s)[nat (op_x opcode) := int k]\<rparr>))"
proof (intro conjI impI allI)
  have c: "\<And>r. cycle r s = exec_F opcode (s\<lparr>pc := pc s + 2\<rparr>)"
    using assms(2,3) by (simp add: cycle_fetch execute_F)
  {
    assume "\<forall>i<16. keys s ! i = 0"
    then have "scan_keys (keys s) [0..<16] = None"
      by (simp add: scan_keys_None)
    then have r: "\<And>r. cycle r s = Inr s"
      by (simp add: c exec_F_0A[OF assms(4)])
    show "cycle rnd s = Inr s" by (rule r)
    show "run rnds s = Inr s" using r by (rule run_fixed)
  }
  fix k
  assume "k < 16" and "keys s ! k \<noteq> 0 \<and> (\<forall>j<k. keys s ! j = 0)"
  then have "scan_keys (keys s) [0..<16] = Some k"
    by (simp add: scan_keys_lowest)
  then show "cycle rnd s = Inr (s\<lparr>pc := pc s + 2, V := (V s)[nat (op_x opcode) := int k]\<rparr>)"
    by (simp add: c exec_F_0A[OF assms(4)])
qed

text \<open>LD V3, K: with no key, then with the keys 5 and 9 pressed.\<close>

theorem wait_for_key_witness:
  "wf_state (boot [0xF3, 0x0A])
   \<and> fetch (boot [0xF3, 0x0A]) = Inr 0xF30A
   \<and> cycle 0 (boot [0xF3, 0x0A]) = Inr (boot [0xF3, 0x0A])
   \<and> run [0, 0, 0] (boot [0xF3, 0x0A]) = Inr (boot [0xF3, 0x0A])
   \<and> cycle 0 ((boot [0xF3, 0x0A])\<lparr>keys := (replicate 16 0)[5 := 1, 9 := 1]\<rparr>) =
       Inr ((boot [0xF3, 0x0A])\<lparr>keys := (replicate 16 0)[5 := 1, 9 := 1],
                                pc := 0x202, V := (replicate 16 0)[3 := 5]\<rparr>)"
proof -
  let ?s = "boot [0xF3, 0x0A]"
  let ?t = "?s\<lparr>keys := (replicate 16 0)[5 := 1, 9 := 1]\<rparr>"
  have wf: "wf_state ?s"
    by (rule wf_state_boot) (simp_all add: is_byte_def)
  have wt: "wf_state ?t"
    using wf by (intro wf_state_set_keys) (simp_all add: is_bit_def list_all_length nth_list_update)
  have f: "fetch ?s = Inr 0xF30A" "fetch ?t = Inr 0xF30A"
    using fetch_boot[of ?s "0xF3" "0x0A" "[]"] fetch_boot[of ?t "0xF3" "0x0A" "[]"]
    by (simp_all add: boot_fields)
  have d: "0xF30A AND 0xF000 = (0xF000::int)" "op_kk 0xF30A = 0x0A" "nat (op_x 0xF30A) = 3"
    by (simp_all add: op_kk_def op_x_def)
  have "\<forall>i<16. keys ?s ! i = 0"
    by (simp add: boot_fields)
  then have 1: "cycle 0 ?s = Inr ?s \<and> run [0, 0, 0] ?s = Inr ?s"
    using wait_for_key[OF wf f(1) d(1,2), of 0 "[0, 0, 0]"] by blast
  have "(5::nat) < 16 \<and> keys ?t ! 5 \<noteq> 0 \<and> (\<forall>j<5. keys ?t ! j = 0)"
    by (simp add: nth_list_update)
  then have "cycle 0 ?t = Inr (?t\<lparr>pc := pc ?t + 2, V := (V ?t)[nat (op_x 0xF30A) := int 5]\<rparr>)"
    using wait_for_key[OF wt f(2) d(1,2), of 0 "[]"] by blast
  then show ?thesis
    using 1 wf f(1) by (simp add: d boot_fields)
qed

subsection \<open>DRW\<close>

lemma sprite_mask:
  assumes "col < 8"
  shows "(sprite AND drop_bit col (0x80::int) \<noteq> 0) = bit sprite (7 - col)"
proof -
  have "col \<in> {0, 1, 2, 3, 4, 5, 6, 7}"
    using assms by auto
  then show ?thesis
  proof (elim insertE emptyE)
    assume "col = 0"
    then show ?thesis using bit_iff_and_push_bit_not_eq_0[of sprite 7] by simp
  next
    assume "col = 1"
    then show ?thesis using bit_iff_and_push_bit_not_eq_0[of sprite 6] by simp
  next
    assume "col = 2"
    then show ?thesis using bit_iff_and_push_bit_not_eq_0[of sprite 5] by simp
  next
    assume "col = 3"
    then show ?thesis using bit_iff_and_push_bit_not_eq_0[of sprite 4] by simp
  next
    assume "col = 4"
    then show ?thesis using bit_iff_and_push_bit_not_eq_0[of sprite 3] by simp
  next
    assume "col = 5"
    then show ?thesis using bit_iff_and_push_bit_not_eq_0[of sprite 2] by simp
  next
    assume "col = 6"
    then show ?thesis using bit_iff_and_push_bit_not_eq_0[of sprite 1] by simp
  next
    assume "col = 7"
    then show ?thesis using bit_iff_and_push_bit_not_eq_0[of sprite 0] by simp
  qed
qed

lemma wrap_64_inj:
  assumes "a < 64" "b < 64" "nat ((vx + int a) mod 64) = nat ((vx + int b) mod 64)"
  shows "a = b"
proof -
  have "(vx + int a) mod 64 = (vx + int b) mod 64"
    using assms(3) by (simp add: nat_eq_iff)
  then have "64 dvd (vx + int a) - (vx + int b)"
    by (simp only: mod_eq_dvd_iff)
  then obtain k where k: "int a - int b = 64 * k"
    by (auto simp: dvd_def)
  have "- 64 < int a - int b" "int a - int b < 64"
    using assms(1,2) by simp_all
  then have "k = 0"
    unfolding k by simp
  then show ?thesis
    using k by simp
qed

lemma wrap_32_inj:
  assumes "a < 32" "b < 32" "nat ((vy + int a) mod 32) = nat ((vy + int b) mod 32)"
  shows "a = b"
proof -
  have "(vy + int a) mod 32 = (vy + int b) mod 32"
    using assms(3) by (simp add: nat_eq_iff)
  then have "32 dvd (vy + int a) - (vy + int b)"
    by (simp only: mod_eq_dvd_iff)
  then obtain k where k: "int a - int b = 32 * k"
    by (auto simp: dvd_def)
  have "- 32 < int a - int b" "int a - int b < 32"
    using assms(1,2) by simp_all
  then have "k = 0"
    unfolding k by simp
  then show ?thesis
    using k by simp
qed

lemma wrap_64_less: "nat ((vx + int c) mod 64) < 64"
  by (simp add: nat_less_iff)

lemma wrap_32_less: "nat ((vy + r) mod 32) < 32"
  by (simp add: nat_less_iff)

lemma pixel_update_nth:
  assumes "py < length d" "px < length (d ! py)" "qy < length d"
  shows "d[py := (d ! py)[px := v]] ! qy ! qx = (if qy = py \<and> qx = px then v else d ! qy ! qx)"
  using assms by (simp add: nth_list_update)

lemma pixel_update_shape:
  assumes "length d = 32" "\<forall>r<32. length (d ! r) = 64"
  shows "length (d[py := (d ! py)[px := v]]) = 32"
    and "\<forall>r<32. length (d[py := (d ! py)[px := v]] ! r) = 64"
proof -
  show "length (d[py := (d ! py)[px := v]]) = 32"
    using assms(1) by simp
  show "\<forall>r<32. length (d[py := (d ! py)[px := v]] ! r) = 64"
  proof (intro allI impI)
    fix r :: nat
    assume "r < 32"
    then show "length (d[py := (d ! py)[px := v]] ! r) = 64"
      using assms by (cases "r = py") simp_all
  qed
qed

lemma draw_cols_spec:
  assumes "length d = 32" "\<forall>r<32. length (d ! r) = 64" "distinct cols" "\<forall>c\<in>set cols. c < 64"
  shows "\<exists>d'. draw_cols sprite vx vy row cols (d, vf) =
           (d', if \<exists>c\<in>set cols. sprite AND drop_bit c 0x80 \<noteq> 0 \<and>
                     d ! nat ((vy + row) mod 32) ! nat ((vx + int c) mod 64) = 1
                then 1 else vf)
         \<and> length d' = 32 \<and> (\<forall>r<32. length (d' ! r) = 64)
         \<and> (\<forall>qy<32. \<forall>qx<64. d' ! qy ! qx =
              (if qy = nat ((vy + row) mod 32) \<and>
                  (\<exists>c\<in>set cols. sprite AND drop_bit c 0x80 \<noteq> 0 \<and> qx = nat ((vx + int c) mod 64))
               then d ! qy ! qx XOR 1 else d ! qy ! qx))"
  using assms
proof (induction cols arbitrary: d vf)
  case Nil
  then show ?case by simp
next
  case (Cons c cols)
  define py where "py = nat ((vy + row) mod 32)"
  define px where "px = (\<lambda>k. nat ((vx + int k) mod 64))"
  define T where "T = (\<lambda>k. sprite AND drop_bit k (0x80::int) \<noteq> 0)"
  have py: "py < 32" unfolding py_def by (rule wrap_32_less)
  have px: "\<And>k. px k < 64" unfolding px_def by (rule wrap_64_less)
  have c: "c < 64" "c \<notin> set cols" "distinct cols" "\<forall>k\<in>set cols. k < 64"
    using Cons.prems(3,4) by simp_all
  have other: "\<And>k. k \<in> set cols \<Longrightarrow> px k \<noteq> px c"
  proof
    fix k assume "k \<in> set cols" "px k = px c"
    then have "k = c"
      using c(1,4) wrap_64_inj[of k c vx] by (simp add: px_def)
    with \<open>k \<in> set cols\<close> c(2) show False by simp
  qed
  show ?case
  proof (cases "T c")
    case False
    have "draw_cols sprite vx vy row (c # cols) (d, vf) = draw_cols sprite vx vy row cols (d, vf)"
      using False by (simp add: T_def)
    moreover obtain d' where d':
      "draw_cols sprite vx vy row cols (d, vf) =
         (d', if \<exists>k\<in>set cols. T k \<and> d ! py ! px k = 1 then 1 else vf)"
      "length d' = 32" "\<forall>r<32. length (d' ! r) = 64"
      "\<forall>qy<32. \<forall>qx<64. d' ! qy ! qx =
         (if qy = py \<and> (\<exists>k\<in>set cols. T k \<and> qx = px k) then d ! qy ! qx XOR 1 else d ! qy ! qx)"
      using Cons.IH[OF Cons.prems(1,2) c(3,4), of vf] unfolding py_def px_def T_def by blast
    ultimately show ?thesis
      using False unfolding py_def px_def T_def by (intro exI[of _ d']) simp
  next
    case True
    let ?d1 = "d[py := (d ! py)[px c := d ! py ! px c XOR 1]]"
    let ?vf1 = "if d ! py ! px c = 1 then 1 else vf"
    have step: "draw_cols sprite vx vy row (c # cols) (d, vf) =
                draw_cols sprite vx vy row cols (?d1, ?vf1)"
      using True by (simp add: T_def py_def px_def Let_def)
    have sh: "length ?d1 = 32" "\<forall>r<32. length (?d1 ! r) = 64"
      using pixel_update_shape[OF Cons.prems(1,2)] by simp_all
    have pyl: "py < length d" "px c < length (d ! py)"
      using py px Cons.prems(1,2) by simp_all
    have d1: "\<And>qy qx. qy < 32 \<Longrightarrow>
        ?d1 ! qy ! qx = (if qy = py \<and> qx = px c then d ! py ! px c XOR 1 else d ! qy ! qx)"
      using pixel_update_nth[OF pyl] Cons.prems(1) by simp
    obtain d' where d':
      "draw_cols sprite vx vy row cols (?d1, ?vf1) =
         (d', if \<exists>k\<in>set cols. T k \<and> ?d1 ! py ! px k = 1 then 1 else ?vf1)"
      "length d' = 32" "\<forall>r<32. length (d' ! r) = 64"
      "\<forall>qy<32. \<forall>qx<64. d' ! qy ! qx =
         (if qy = py \<and> (\<exists>k\<in>set cols. T k \<and> qx = px k) then ?d1 ! qy ! qx XOR 1 else ?d1 ! qy ! qx)"
      using Cons.IH[OF sh c(3,4), of ?vf1] unfolding py_def px_def T_def by blast
    have keep: "\<And>k. k \<in> set cols \<Longrightarrow> ?d1 ! py ! px k = d ! py ! px k"
      using d1[OF py] other by simp
    have vf: "(if \<exists>k\<in>set cols. T k \<and> ?d1 ! py ! px k = 1 then 1 else ?vf1) =
              (if \<exists>k\<in>set (c # cols). T k \<and> d ! py ! px k = 1 then 1 else vf)"
      using keep True by auto
    have pix: "\<forall>qy<32. \<forall>qx<64. d' ! qy ! qx =
         (if qy = py \<and> (\<exists>k\<in>set (c # cols). T k \<and> qx = px k)
          then d ! qy ! qx XOR 1 else d ! qy ! qx)"
    proof (intro allI impI)
      fix qy qx :: nat
      assume q: "qy < 32" "qx < 64"
      have e: "d' ! qy ! qx =
         (if qy = py \<and> (\<exists>k\<in>set cols. T k \<and> qx = px k) then ?d1 ! qy ! qx XOR 1 else ?d1 ! qy ! qx)"
        using d'(4) q by blast
      show "d' ! qy ! qx =
         (if qy = py \<and> (\<exists>k\<in>set (c # cols). T k \<and> qx = px k)
          then d ! qy ! qx XOR 1 else d ! qy ! qx)"
      proof (cases "qy = py \<and> qx = px c")
        case here: True
        have "\<not> (\<exists>k\<in>set cols. T k \<and> qx = px k)"
        proof
          assume "\<exists>k\<in>set cols. T k \<and> qx = px k"
          then obtain k where "k \<in> set cols" "qx = px k" by blast
          with other[of k] here show False by simp
        qed
        then have "(qy = py \<and> (\<exists>k\<in>set cols. T k \<and> qx = px k)) = False"
          by blast
        then have "d' ! qy ! qx = ?d1 ! qy ! qx"
          by (simp only: e if_False)
        also have "\<dots> = d ! qy ! qx XOR 1"
          using here d1[OF q(1), of qx] by simp
        finally show ?thesis
          using here True by auto
      next
        case away: False
        then have a1: "?d1 ! qy ! qx = d ! qy ! qx"
          using d1[OF q(1), of qx] by auto
        have a2: "(qy = py \<and> (\<exists>k\<in>set (c # cols). T k \<and> qx = px k)) =
                  (qy = py \<and> (\<exists>k\<in>set cols. T k \<and> qx = px k))"
          using away by auto
        show ?thesis
          by (simp only: e a1 a2)
      qed
    qed
    show ?thesis
      unfolding step d'(1) vf
      using d'(2,3) pix unfolding py_def px_def T_def by (intro exI[of _ d']) simp
  qed
qed

lemma draw_rows_spec:
  assumes "length d = 32" "\<forall>r<32. length (d ! r) = 64" "distinct rows" "\<forall>r\<in>set rows. r < 32"
    and "0 \<le> i" "\<forall>r\<in>set rows. i + int r < int (length mem)"
  shows "\<exists>d'. draw_rows mem i vx vy rows (d, vf) =
           Inr (d', if \<exists>r\<in>set rows. \<exists>c\<in>set [0..<8].
                        mem ! nat (i + int r) AND drop_bit c 0x80 \<noteq> 0 \<and>
                        d ! nat ((vy + int r) mod 32) ! nat ((vx + int c) mod 64) = 1
                    then 1 else vf)
         \<and> length d' = 32 \<and> (\<forall>r<32. length (d' ! r) = 64)
         \<and> (\<forall>qy<32. \<forall>qx<64. d' ! qy ! qx =
              (if \<exists>r\<in>set rows. qy = nat ((vy + int r) mod 32) \<and>
                    (\<exists>c\<in>set [0..<8]. mem ! nat (i + int r) AND drop_bit c 0x80 \<noteq> 0 \<and>
                                      qx = nat ((vx + int c) mod 64))
               then d ! qy ! qx XOR 1 else d ! qy ! qx))"
  using assms(1-4,6)
proof (induction rows arbitrary: d vf)
  case Nil
  then show ?case by simp
next
  case (Cons r rows)
  define py where "py = (\<lambda>k. nat ((vy + int k) mod 32))"
  define px where "px = (\<lambda>k. nat ((vx + int k) mod 64))"
  define T where "T = (\<lambda>k c. mem ! nat (i + int k) AND drop_bit c (0x80::int) \<noteq> 0)"
  define hit where "hit = (\<lambda>k qx. \<exists>c\<in>set [0..<8]. T k c \<and> qx = px c)"
  have py: "\<And>k. py k < 32" unfolding py_def by (rule wrap_32_less)
  have r: "r < 32" "r \<notin> set rows" "distinct rows" "\<forall>k\<in>set rows. k < 32"
    "\<forall>k\<in>set rows. i + int k < int (length mem)" "i + int r < int (length mem)"
    using Cons.prems(3,4,5) by simp_all
  have other: "\<And>k. k \<in> set rows \<Longrightarrow> py k \<noteq> py r"
  proof
    fix k assume "k \<in> set rows" "py k = py r"
    then have "k = r"
      using r(1,4) wrap_32_inj[of k r vy] by (simp add: py_def)
    with \<open>k \<in> set rows\<close> r(2) show False by simp
  qed
  have rd: "mem_read mem (i + int r) = Inr (mem ! nat (i + int r))"
    using assms(5) r(6) by (intro mem_read_in_range) simp_all
  obtain d1 where d1:
    "draw_cols (mem ! nat (i + int r)) vx vy (int r) [0..<8] (d, vf) =
       (d1, if \<exists>c\<in>set [0..<8]. T r c \<and> d ! py r ! px c = 1 then 1 else vf)"
    "length d1 = 32" "\<forall>k<32. length (d1 ! k) = 64"
    "\<forall>qy<32. \<forall>qx<64. d1 ! qy ! qx =
       (if qy = py r \<and> hit r qx then d ! qy ! qx XOR 1 else d ! qy ! qx)"
    using draw_cols_spec[OF Cons.prems(1,2), of "[0..<8]" "mem ! nat (i + int r)" vx vy "int r" vf]
    unfolding py_def px_def T_def hit_def by auto
  let ?vf1 = "if \<exists>c\<in>set [0..<8]. T r c \<and> d ! py r ! px c = 1 then 1 else vf"
  have step: "draw_rows mem i vx vy (r # rows) (d, vf) = draw_rows mem i vx vy rows (d1, ?vf1)"
    by (simp add: rd d1(1))
  obtain d' where d':
    "draw_rows mem i vx vy rows (d1, ?vf1) =
       Inr (d', if \<exists>k\<in>set rows. \<exists>c\<in>set [0..<8]. T k c \<and> d1 ! py k ! px c = 1 then 1 else ?vf1)"
    "length d' = 32" "\<forall>k<32. length (d' ! k) = 64"
    "\<forall>qy<32. \<forall>qx<64. d' ! qy ! qx =
       (if \<exists>k\<in>set rows. qy = py k \<and> hit k qx then d1 ! qy ! qx XOR 1 else d1 ! qy ! qx)"
    using Cons.IH[OF d1(2,3) r(3,4,5), of ?vf1] unfolding py_def px_def T_def hit_def by blast
  have keep: "\<And>k c. k \<in> set rows \<Longrightarrow> d1 ! py k ! px c = d ! py k ! px c"
  proof -
    fix k c assume "k \<in> set rows"
    then have "py k \<noteq> py r" by (rule other)
    moreover have "px c < 64" unfolding px_def by (rule wrap_64_less)
    ultimately show "d1 ! py k ! px c = d ! py k ! px c"
      using d1(4) py[of k] by simp
  qed
  have vf: "(if \<exists>k\<in>set rows. \<exists>c\<in>set [0..<8]. T k c \<and> d1 ! py k ! px c = 1 then 1 else ?vf1) =
            (if \<exists>k\<in>set (r # rows). \<exists>c\<in>set [0..<8]. T k c \<and> d ! py k ! px c = 1 then 1 else vf)"
    using keep by auto
  have pix: "\<forall>qy<32. \<forall>qx<64. d' ! qy ! qx =
       (if \<exists>k\<in>set (r # rows). qy = py k \<and> hit k qx then d ! qy ! qx XOR 1 else d ! qy ! qx)"
  proof (intro allI impI)
    fix qy qx :: nat
    assume q: "qy < 32" "qx < 64"
    have e: "d' ! qy ! qx =
       (if \<exists>k\<in>set rows. qy = py k \<and> hit k qx then d1 ! qy ! qx XOR 1 else d1 ! qy ! qx)"
      using d'(4) q by blast
    have e1: "d1 ! qy ! qx = (if qy = py r \<and> hit r qx then d ! qy ! qx XOR 1 else d ! qy ! qx)"
      using d1(4) q by blast
    show "d' ! qy ! qx =
       (if \<exists>k\<in>set (r # rows). qy = py k \<and> hit k qx then d ! qy ! qx XOR 1 else d ! qy ! qx)"
    proof (cases "qy = py r")
      case True
      have "\<not> (\<exists>k\<in>set rows. qy = py k \<and> hit k qx)"
      proof
        assume "\<exists>k\<in>set rows. qy = py k \<and> hit k qx"
        then obtain k where "k \<in> set rows" "qy = py k" by blast
        with other[of k] True show False by simp
      qed
      then have c1: "(\<exists>k\<in>set rows. qy = py k \<and> hit k qx) = False"
        by blast
      have c2: "(\<exists>k\<in>set (r # rows). qy = py k \<and> hit k qx) = (qy = py r \<and> hit r qx)"
        using c1 by auto
      show ?thesis
        by (simp only: e c1 c2 if_False e1)
    next
      case False
      then have c1: "d1 ! qy ! qx = d ! qy ! qx"
        using e1 by simp
      have c2: "(\<exists>k\<in>set (r # rows). qy = py k \<and> hit k qx) =
                (\<exists>k\<in>set rows. qy = py k \<and> hit k qx)"
        using False by auto
      show ?thesis
        by (simp only: e c1 c2)
    qed
  qed
  show ?case
    unfolding step d'(1) vf
    using d'(2,3) pix unfolding py_def px_def T_def hit_def by (intro exI[of _ d']) simp
qed

lemma wf_state_display:
  "wf_state s \<Longrightarrow> length (display s) = 32 \<and> (\<forall>r<32. length (display s ! r) = 64)"
  by (simp add: wf_state_def list_all_length)

lemma sprite_covers_iff:
  "sprite_covers mem i n vx vy py px =
   (\<exists>r\<in>set [0..<n]. py = nat ((vy + int r) mod 32) \<and>
      (\<exists>c\<in>set [0..<8]. mem ! nat (i + int r) AND drop_bit c 0x80 \<noteq> 0 \<and>
                        px = nat ((vx + int c) mod 64)))"
proof -
  have "\<And>r c. c \<in> set [0..<8] \<Longrightarrow>
      sprite_bit mem i r c = (mem ! nat (i + int r) AND drop_bit c 0x80 \<noteq> 0)"
    using sprite_mask by (simp add: sprite_bit_def)
  then show ?thesis
    unfolding sprite_covers_def list_ex_iff by blast
qed

lemma sprite_hits_iff:
  "(\<exists>py<32. \<exists>px<64. sprite_covers mem i n vx vy py px \<and> d ! py ! px = 1) =
   (\<exists>r\<in>set [0..<n]. \<exists>c\<in>set [0..<8].
       mem ! nat (i + int r) AND drop_bit c 0x80 \<noteq> 0 \<and>
       d ! nat ((vy + int r) mod 32) ! nat ((vx + int c) mod 64) = 1)"
  (is "?L = ?R")
proof
  assume ?L
  then obtain py px where "sprite_covers mem i n vx vy py px" "d ! py ! px = 1"
    by blast
  then show ?R
    unfolding sprite_covers_iff by blast
next
  assume ?R
  then obtain r c where rc: "r \<in> set [0..<n]" "c \<in> set [0..<8]"
    "mem ! nat (i + int r) AND drop_bit c 0x80 \<noteq> 0"
    "d ! nat ((vy + int r) mod 32) ! nat ((vx + int c) mod 64) = 1"
    by blast
  have "sprite_covers mem i n vx vy (nat ((vy + int r) mod 32)) (nat ((vx + int c) mod 64))"
    unfolding sprite_covers_iff using rc(1,2,3) by blast
  moreover have "nat ((vy + int r) mod 32) < 32"
    by (rule wrap_32_less)
  moreover have "nat ((vx + int c) mod 64) < 64"
    by (rule wrap_64_less)
  ultimately show ?L
    using rc(4) by blast
qed

text \<open>
  C3. On a well-formed state whose sprite rows \<open>I .. I + n - 1\<close> are inside the
  memory, DRW (Dxyn) returns normally. With \<open>V[x]\<close> and \<open>V[y]\<close> the values the two
  registers hold when the instruction starts (the code reads them before it clears
  VF), every pixel covered by a set bit of the sprite, at column \<open>(V[x] + col) mod 64\<close>
  and row \<open>(V[y] + row) mod 32\<close> with the most significant bit of each byte as column 0,
  is XORed with 1 and every other pixel keeps its value; VF is 1 if and only if a
  covered pixel was 1 before, and 0 otherwise; the other registers, the memory and
  \<open>I\<close> are unchanged. The wrap has no condition on the sprite size.
\<close>

theorem drw_xor_blit:
  assumes "wf_state s" and "fetch s = Inr opcode" and "opcode AND 0xF000 = 0xD000"
    and "\<forall>row<nat (op_n opcode). in_memory (I s + int row)"
  shows "\<exists>s'. cycle rnd s = Inr s'
       \<and> (\<forall>py<32. \<forall>px<64. display s' ! py ! px =
            (if sprite_covers (memory s) (I s) (nat (op_n opcode))
                  (V s ! nat (op_x opcode)) (V s ! nat (op_y opcode)) py px
             then display s ! py ! px XOR 1 else display s ! py ! px))
       \<and> V s' ! 0xF =
            (if \<exists>py<32. \<exists>px<64.
                  sprite_covers (memory s) (I s) (nat (op_n opcode))
                    (V s ! nat (op_x opcode)) (V s ! nat (op_y opcode)) py px \<and>
                  display s ! py ! px = 1
             then 1 else 0)
       \<and> (\<forall>r<15. V s' ! r = V s ! r)
       \<and> memory s' = memory s \<and> I s' = I s \<and> pc s' = pc s + 2"
proof -
  let ?n = "nat (op_n opcode)"
  let ?vx = "V s ! nat (op_x opcode)" and ?vy = "V s ! nat (op_y opcode)"
  let ?t = "s\<lparr>pc := pc s + 2\<rparr>"
  have c: "cycle rnd s = exec_D opcode ?t"
    using assms(2,3) by (simp add: cycle_fetch execute_D)
  have sh: "length (display s) = 32" "\<forall>r<32. length (display s ! r) = 64"
    using wf_state_display[OF assms(1)] by simp_all
  have l: "length (memory s) = 4096" and i: "0 \<le> I s" and v: "length (V s) = 16"
    using assms(1) by (simp_all add: wf_state_memory wf_state_addresses wf_state_V)
  have "op_n opcode < 16"
    by (simp add: op_n_def and_f)
  then have rows: "distinct [0..<?n]" "\<forall>r\<in>set [0..<?n]. r < 32"
    by auto
  have inr: "\<forall>r\<in>set [0..<?n]. I s + int r < int (length (memory s))"
    using assms(4) l by (fastforce simp: in_memory_def)
  obtain d' where d':
    "draw_rows (memory s) (I s) ?vx ?vy [0..<?n] (display s, 0) =
       Inr (d', if \<exists>r\<in>set [0..<?n]. \<exists>c\<in>set [0..<8].
                    memory s ! nat (I s + int r) AND drop_bit c 0x80 \<noteq> 0 \<and>
                    display s ! nat ((?vy + int r) mod 32) ! nat ((?vx + int c) mod 64) = 1
                then 1 else 0)"
    "\<forall>qy<32. \<forall>qx<64. d' ! qy ! qx =
       (if \<exists>r\<in>set [0..<?n]. qy = nat ((?vy + int r) mod 32) \<and>
             (\<exists>c\<in>set [0..<8]. memory s ! nat (I s + int r) AND drop_bit c 0x80 \<noteq> 0 \<and>
                               qx = nat ((?vx + int c) mod 64))
        then display s ! qy ! qx XOR 1 else display s ! qy ! qx)"
    using draw_rows_spec[OF sh rows i inr, of ?vx ?vy 0] by blast
  let ?vf = "if \<exists>py<32. \<exists>px<64.
                  sprite_covers (memory s) (I s) ?n ?vx ?vy py px \<and> display s ! py ! px = 1
             then 1 else (0::int)"
  have d1: "draw_rows (memory s) (I s) ?vx ?vy [0..<?n] (display s, 0) = Inr (d', ?vf)"
    unfolding d'(1) sprite_hits_iff ..
  have e: "exec_D opcode ?t = Inr (?t\<lparr>V := (V s)[0xF := 0, 0xF := ?vf], display := d'\<rparr>)"
    using d1 by (simp add: exec_D_def Let_def)
  have pix: "\<forall>py<32. \<forall>px<64. d' ! py ! px =
            (if sprite_covers (memory s) (I s) ?n ?vx ?vy py px
             then display s ! py ! px XOR 1 else display s ! py ! px)"
    using d'(2) unfolding sprite_covers_iff .
  show ?thesis
    unfolding c e using pix v
    by (intro exI[of _ "?t\<lparr>V := (V s)[0xF := 0, 0xF := ?vf], display := d'\<rparr>"]) simp
qed

lemma boot_memory_low:
  assumes "length rom \<le> 3584" "k < 0x200"
  shows "memory (boot rom) ! k = memory init ! k"
  using assms by (simp add: boot_memory nth_append length_memory_init)

lemma font_zero:
  "memory init ! 0 = 0xF0" "memory init ! 1 = 0x90" "memory init ! 2 = 0x90"
  "memory init ! 3 = 0x90" "memory init ! 4 = 0xF0" "memory init ! Suc 0 = 0x90"
  by (simp_all add: init_def fontset_def)

text \<open>DRW V0, V1, 5 on a fresh machine draws the glyph of the digit 0 from the fontset.\<close>

theorem drw_xor_blit_witness:
  "wf_state (boot [0xD0, 0x15])
   \<and> fetch (boot [0xD0, 0x15]) = Inr 0xD015
   \<and> (\<exists>s'. cycle 0 (boot [0xD0, 0x15]) = Inr s'
         \<and> V s' ! 0xF = 0
         \<and> display s' ! 0 ! 0 = 1 \<and> display s' ! 0 ! 3 = 1 \<and> display s' ! 0 ! 4 = 0
         \<and> display s' ! 1 ! 0 = 1 \<and> display s' ! 1 ! 1 = 0 \<and> display s' ! 1 ! 3 = 1
         \<and> display s' ! 5 ! 0 = 0
         \<and> pc s' = 0x202)"
proof -
  let ?s = "boot [0xD0, 0x15]"
  have wf: "wf_state ?s"
    by (rule wf_state_boot) (simp_all add: is_byte_def)
  have f: "fetch ?s = Inr 0xD015"
    using fetch_boot[of ?s "0xD0" "0x15" "[]"] by (simp add: boot_fields)
  have d: "0xD015 AND 0xF000 = (0xD000::int)" "nat (op_n 0xD015) = 5"
    "nat (op_x 0xD015) = 0" "nat (op_y 0xD015) = 1"
    by (simp_all add: op_n_def op_x_def op_y_def)
  have m: "memory ?s ! 0 = 0xF0" "memory ?s ! 1 = 0x90" "memory ?s ! 2 = 0x90"
    "memory ?s ! 3 = 0x90" "memory ?s ! 4 = 0xF0" "memory ?s ! Suc 0 = 0x90"
    by (simp_all add: boot_memory_low font_zero)
  have rows: "\<forall>row<nat (op_n 0xD015). in_memory (I ?s + int row)"
    by (simp add: d boot_fields in_memory_def)
  have blank: "\<And>py px. py < 32 \<Longrightarrow> px < 64 \<Longrightarrow> display ?s ! py ! px = 0"
    by (simp add: boot_fields blank_display_def)
  have vf: "\<not> (\<exists>py<32. \<exists>px<64. sprite_covers (memory ?s) (I ?s) 5 (V ?s ! 0) (V ?s ! 1) py px \<and>
                display ?s ! py ! px = 1)"
    using blank by auto
  have cov: "sprite_covers (memory ?s) (I ?s) 5 (V ?s ! 0) (V ?s ! 1) 0 0"
    "sprite_covers (memory ?s) (I ?s) 5 (V ?s ! 0) (V ?s ! 1) 0 3"
    "\<not> sprite_covers (memory ?s) (I ?s) 5 (V ?s ! 0) (V ?s ! 1) 0 4"
    "sprite_covers (memory ?s) (I ?s) 5 (V ?s ! 0) (V ?s ! 1) 1 0"
    "\<not> sprite_covers (memory ?s) (I ?s) 5 (V ?s ! 0) (V ?s ! 1) 1 1"
    "sprite_covers (memory ?s) (I ?s) 5 (V ?s ! 0) (V ?s ! 1) 1 3"
    "\<not> sprite_covers (memory ?s) (I ?s) 5 (V ?s ! 0) (V ?s ! 1) 5 0"
    by (simp_all add: sprite_covers_iff boot_fields m)
  obtain s' where s': "cycle 0 ?s = Inr s'"
    "\<forall>py<32. \<forall>px<64. display s' ! py ! px =
       (if sprite_covers (memory ?s) (I ?s) 5 (V ?s ! 0) (V ?s ! 1) py px
        then display ?s ! py ! px XOR 1 else display ?s ! py ! px)"
    "V s' ! 0xF =
       (if \<exists>py<32. \<exists>px<64. sprite_covers (memory ?s) (I ?s) 5 (V ?s ! 0) (V ?s ! 1) py px \<and>
             display ?s ! py ! px = 1
        then 1 else 0)"
    "pc s' = pc ?s + 2"
    using drw_xor_blit[OF wf f d(1) rows, of 0] unfolding d by blast
  have "V s' ! 0xF = 0"
    using s'(3) vf by simp
  moreover have "display s' ! 0 ! 0 = 1" "display s' ! 0 ! 3 = 1" "display s' ! 0 ! 4 = 0"
    "display s' ! 1 ! 0 = 1" "display s' ! 1 ! 1 = 0" "display s' ! 1 ! 3 = 1"
    "display s' ! 5 ! 0 = 0"
    using s'(2) cov blank by simp_all
  moreover have "pc s' = 0x202"
    using s'(4) by (simp add: boot_fields)
  ultimately show ?thesis
    using wf f s'(1) by blast
qed

subsection \<open>The disassembler\<close>

lemma hex_upper_1: "n < 16 \<Longrightarrow> hex_upper n = [hex_digit n]"
  by (simp add: hex_upper.simps)

lemma hex_upper_step: "16 \<le> n \<Longrightarrow> hex_upper n = hex_upper (n div 16) @ [hex_digit (n mod 16)]"
  by (subst hex_upper.simps) simp

lemma hex_upper_2:
  "16 \<le> n \<Longrightarrow> n < 256 \<Longrightarrow> hex_upper n = [hex_digit (n div 16), hex_digit (n mod 16)]"
proof -
  assume a: "16 \<le> n" "n < 256"
  then have "n div 16 < 16" by auto
  then have "hex_upper (n div 16) = [hex_digit (n div 16)]" by (rule hex_upper_1)
  then show ?thesis using a by (simp add: hex_upper_step)
qed

lemma hex_upper_3:
  "256 \<le> n \<Longrightarrow> n < 4096 \<Longrightarrow>
   hex_upper n = [hex_digit (n div 256), hex_digit (n div 16 mod 16), hex_digit (n mod 16)]"
proof -
  assume a: "256 \<le> n" "n < 4096"
  then have "16 \<le> n div 16" "n div 16 < 256" by auto
  then have "hex_upper (n div 16) = [hex_digit (n div 16 div 16), hex_digit (n div 16 mod 16)]"
    by (rule hex_upper_2)
  moreover have "n div 16 div 16 = n div 256" by (simp add: div_mult2_eq)
  ultimately show ?thesis using a by (simp add: hex_upper_step)
qed

lemma hex_upper_4:
  "4096 \<le> n \<Longrightarrow> n < 65536 \<Longrightarrow>
   hex_upper n = [hex_digit (n div 4096), hex_digit (n div 256 mod 16),
                  hex_digit (n div 16 mod 16), hex_digit (n mod 16)]"
proof -
  assume a: "4096 \<le> n" "n < 65536"
  then have "256 \<le> n div 16" "n div 16 < 4096" by auto
  then have "hex_upper (n div 16) =
      [hex_digit (n div 16 div 256), hex_digit (n div 16 div 16 mod 16), hex_digit (n div 16 mod 16)]"
    by (rule hex_upper_3)
  moreover have "n div 16 div 256 = n div 4096" "n div 16 div 16 = n div 256"
    by (simp_all add: div_mult2_eq)
  ultimately show ?thesis using a by (simp add: hex_upper_step)
qed

lemma hex_digit_0: "hex_digit 0 = CHR ''0''"
  by (simp add: hex_digit_def)

lemma zero_pad_4:
  "zero_pad 4 [a] = [CHR ''0'', CHR ''0'', CHR ''0'', a]"
  "zero_pad 4 [a, b] = [CHR ''0'', CHR ''0'', a, b]"
  "zero_pad 4 [a, b, c] = [CHR ''0'', a, b, c]"
  "zero_pad 4 [a, b, c, d] = [a, b, c, d]"
  by (simp_all add: zero_pad_def numeral_eq_Suc)

lemma fmt_X_4_nat:
  assumes "n < 65536"
  shows "zero_pad 4 (hex_upper n) =
         [hex_digit (n div 4096), hex_digit (n div 256 mod 16),
          hex_digit (n div 16 mod 16), hex_digit (n mod 16)]"
proof -
  consider "n < 16" | "16 \<le> n" "n < 256" | "256 \<le> n" "n < 4096" | "4096 \<le> n"
    by linarith
  then show ?thesis
  proof cases
    case 1
    then have "n div 4096 = 0" "n div 256 = 0" "n div 16 = 0" by simp_all
    with 1 show ?thesis
      by (simp add: hex_upper_1 zero_pad_4 hex_digit_0)
  next
    case 2
    then have "n div 4096 = 0" "n div 256 = 0" "n div 16 < 16" by auto
    with 2 show ?thesis
      by (simp add: hex_upper_2 zero_pad_4 hex_digit_0)
  next
    case 3
    then have "n div 4096 = 0" "n div 256 < 16" by auto
    with 3 show ?thesis
      by (simp add: hex_upper_3 zero_pad_4 hex_digit_0)
  next
    case 4
    with assms show ?thesis
      by (simp add: hex_upper_4 zero_pad_4)
  qed
qed

lemma fmt_X_4: "0 \<le> v \<Longrightarrow> v < 65536 \<Longrightarrow> fmt_X 4 v = hex4 v"
proof -
  assume a: "0 \<le> v" "v < 65536"
  then have "nat v < 65536" by simp
  then have "zero_pad 4 (hex_upper (nat v)) =
         [hex_digit (nat v div 4096), hex_digit (nat v div 256 mod 16),
          hex_digit (nat v div 16 mod 16), hex_digit (nat v mod 16)]"
    by (rule fmt_X_4_nat)
  moreover have "nat v div 4096 = nat (v div 4096)" "nat v div 256 mod 16 = nat (v div 256 mod 16)"
    "nat v div 16 mod 16 = nat (v div 16 mod 16)" "nat v mod 16 = nat (v mod 16)"
    using a(1) by (simp_all add: nat_div_distrib nat_mod_distrib)
  ultimately show ?thesis
    using a(1) by (simp add: fmt_X_def hex4_def)
qed

lemma opcode_group:
  assumes "0 \<le> (opcode::int)" "opcode < 65536"
  shows "opcode AND 0xF000 = 4096 * (opcode div 4096)"
    and "opcode div 4096 \<in> {0, 1, 2, 3, 4, 5, 6, 7, 8, 9, 10, 11, 12, 13, 14, 15}"
proof -
  have "0 \<le> opcode div 4096" "opcode div 4096 < 16"
    using assms by auto
  then show "opcode div 4096 \<in> {0, 1, 2, 3, 4, 5, 6, 7, 8, 9, 10, 11, 12, 13, 14, 15}"
    by (rule nibble_cases)
  have "opcode div 4096 mod 16 = opcode div 4096"
    using \<open>0 \<le> opcode div 4096\<close> \<open>opcode div 4096 < 16\<close> by simp
  then show "opcode AND 0xF000 = 4096 * (opcode div 4096)"
    by (simp add: hi_nibble)
qed

lemma disassemble_unknown:
  assumes "0 \<le> opcode" "opcode < 65536" "\<not> in_case_table opcode"
  shows "disassemble opcode = ''UNKNOWN '' @ fmt_X 4 opcode"
proof -
  note g = opcode_group[OF assms(1,2)]
  have small: "opcode div 4096 \<noteq> 0 \<Longrightarrow> opcode \<noteq> 0xE0 \<and> opcode \<noteq> 0xEE"
    by auto
  from g(2) show ?thesis
    using assms(3) small
    by (elim insertE emptyE)
       (simp_all add: disassemble_def in_case_table_def Let_def g(1) op_n_def op_kk_def and_f and_ff)
qed

lemma disassemble_known:
  assumes "0 \<le> opcode" "opcode < 65536" "in_case_table opcode"
  shows "hd (disassemble opcode) \<noteq> CHR ''U''"
proof -
  note g = opcode_group[OF assms(1,2)]
  have small: "opcode div 4096 \<noteq> 0 \<Longrightarrow> opcode \<noteq> 0xE0 \<and> opcode \<noteq> 0xEE"
    by auto
  from g(2) show ?thesis
    using assms(3) small
    by (elim insertE emptyE)
       (auto simp: disassemble_def in_case_table_def Let_def g(1) op_n_def op_kk_def and_f and_ff)
qed

lemma disassemble_CLS: "disassemble 0x00E0 = ''CLS''"
  by (simp add: disassemble_def)

lemma disassemble_JP_234: "disassemble 0x1234 = ''JP 234''"
  by (simp add: disassemble_def op_nnn_def fmt_X_def hex_upper_3 zero_pad_def hex_digit_def)

lemma disassemble_UNKNOWN_E000: "disassemble 0xE000 = ''UNKNOWN E000''"
  by (simp add: disassemble_def op_kk_def fmt_X_4 hex4_def hex_digit_def)

text \<open>
  C8. On every 16-bit opcode the disassembler returns a string: for an opcode outside
  its case table, the text \<open>UNKNOWN\<close>, a space and the opcode as four upper-case
  hexadecimal digits; for an opcode of the table, a mnemonic, which never starts with
  \<open>U\<close>. In particular \<open>disassemble(0x00E0)\<close> is \<open>CLS\<close>, \<open>disassemble(0x1234)\<close> is
  \<open>JP 234\<close> and \<open>disassemble(0xE000)\<close> is \<open>UNKNOWN E000\<close>.
\<close>

theorem disassemble_total:
  assumes "0 \<le> opcode" and "opcode < 65536"
  shows "(\<not> in_case_table opcode \<longrightarrow> disassemble opcode = ''UNKNOWN '' @ hex4 opcode)
       \<and> (in_case_table opcode \<longrightarrow> hd (disassemble opcode) \<noteq> CHR ''U'')
       \<and> disassemble 0x00E0 = ''CLS''
       \<and> disassemble 0x1234 = ''JP 234''
       \<and> disassemble 0xE000 = ''UNKNOWN E000''"
proof -
  have "\<not> in_case_table opcode \<longrightarrow> disassemble opcode = ''UNKNOWN '' @ hex4 opcode"
    using assms by (simp add: disassemble_unknown fmt_X_4)
  moreover have "in_case_table opcode \<longrightarrow> hd (disassemble opcode) \<noteq> CHR ''U''"
    using assms by (simp add: disassemble_known)
  ultimately show ?thesis
    using disassemble_CLS disassemble_JP_234 disassemble_UNKNOWN_E000 by blast
qed

text \<open>8008 is an unhandled case of the group 8xxx; F30A is LD V3, K.\<close>

theorem disassemble_total_witness:
  "\<not> in_case_table 0x8008 \<and> disassemble 0x8008 = ''UNKNOWN 8008''
   \<and> in_case_table 0xF30A \<and> hd (disassemble 0xF30A) \<noteq> CHR ''U''"
proof -
  have a: "\<not> in_case_table 0x8008" "in_case_table 0xF30A"
    by (simp_all add: in_case_table_def)
  have "hex4 0x8008 = ''8008''"
    by (simp add: hex4_def hex_digit_def)
  then show ?thesis
    using a disassemble_total[of "0x8008"] disassemble_total[of "0xF30A"] by simp
qed

end
